theory Spec2Isabelle
  imports Main
begin

section \<open>The task and task-group execution engine of multigit\<close>

text \<open>
  A shallow embedding of \<^verbatim>\<open>src/mg_exec_task_item.py\<close>: the task (\<^verbatim>\<open>MgExecTask\<close>), the
  task group (\<^verbatim>\<open>MgExecTaskGroup\<close>), the two precondition builders, the tree item of one
  task (\<^verbatim>\<open>MgExecItemOneCmd\<close>) and the group runner (\<^verbatim>\<open>MgExecItemMultiCmd\<close>).

  Objects are values: a task is a record, a task inside a group is named by its position in
  \<^verbatim>\<open>taskGroup.tasks\<close>, a tree item by its position among the runner's children. What a
  method does beyond changing fields (dispatching the concrete execution, emitting a Qt
  signal, calling the completion callback, refreshing the repository) is written to a list
  of effects in call order. Every \<^verbatim>\<open>raise\<close> and failed \<^verbatim>\<open>assert\<close> is an \<open>Inl\<close> result.
  Icons, texts, fonts and the expansion of tree rows do not influence the engine and are
  left out, and so are the descriptions and command lines of the tasks and the signal
  \<^verbatim>\<open>sig_partial_output\<close>. The concrete task classes (\<^verbatim>\<open>MgExecTaskGit\<close>,
  \<^verbatim>\<open>MgExecTaskCollectRemoteUrl\<close>) enter through the two methods they implement, \<^verbatim>\<open>_do_run\<close>
  and \<^verbatim>\<open>_do_abort\<close>, and through their later call of \<^verbatim>\<open>task_done\<close>.
\<close>

subsection \<open>Enumerations\<close>

datatype PreConditionState = NotFulfilled | FulFilled | PreConditionErrored

datatype TaskState = NotStarted | Started | Successful | Errored

datatype UserActionOnGitError = NOTHING | ABORT | CONTINUE | RETRY | OK

datatype error =
    AssertionError | IndexError | AttributeError | RuntimeError | ValueError

subsection \<open>MgExecTask\<close>

text \<open>
  \<open>sig_task_done\<close> holds the slots connected to the signal of that name: the positions
  (among the runner's children) of the \<^verbatim>\<open>MgExecItemOneCmd\<close> items whose \<^verbatim>\<open>slotTaskDone\<close> is
  connected, in connection order.
\<close>

record MgExecTask =
  task_state :: TaskState
  ignore_failure :: bool
  sig_task_done :: "nat list"

text \<open>
  What a task method does to the outside: \<open>DoRun\<close> and \<open>DoAbort\<close> are the calls of the
  methods \<^verbatim>\<open>_do_run\<close> and \<^verbatim>\<open>_do_abort\<close> that a concrete task class implements, \<open>LogError\<close> the
  line written by \<^verbatim>\<open>error(...)\<close>, \<open>SigTaskDone success output\<close> one emission of
  \<^verbatim>\<open>sig_task_done\<close>.
\<close>

datatype task_effect = DoRun | DoAbort | LogError | SigTaskDone bool string

definition MgExecTask_init :: "bool \<Rightarrow> MgExecTask" where
  "MgExecTask_init ignore =
     \<lparr>task_state = NotStarted, ignore_failure = ignore, sig_task_done = []\<rparr>"

definition is_task_done :: "MgExecTask \<Rightarrow> bool" where
  "is_task_done self = (task_state self \<in> {Successful, Errored})"

definition is_task_started :: "MgExecTask \<Rightarrow> bool" where
  "is_task_started self = (task_state self \<in> {Started, Successful, Errored})"

definition is_task_successful :: "MgExecTask \<Rightarrow> bool" where
  "is_task_successful self = (task_state self = Successful)"

definition is_task_errored :: "MgExecTask \<Rightarrow> bool" where
  "is_task_errored self = (task_state self = Errored)"

definition MgExecTask_run :: "MgExecTask \<Rightarrow> MgExecTask \<times> task_effect list" where
  "MgExecTask_run self =
     (if task_state self = Started then (self, [LogError])
      else
        let self1 = (if task_state self \<in> {Successful, Errored}
                     then self\<lparr>task_state := NotStarted\<rparr> else self);
            self2 = self1\<lparr>task_state := Started\<rparr>
        in (self2, [DoRun]))"

definition task_done :: "bool \<Rightarrow> string \<Rightarrow> MgExecTask \<Rightarrow> MgExecTask \<times> task_effect list" where
  "task_done success output self =
     (let self1 = self\<lparr>task_state := (if success then Successful else Errored)\<rparr>;
          success1 = (if \<not> success \<and> ignore_failure self1 then True else success)
      in (self1, [SigTaskDone success1 output]))"

definition MgExecTask_abort :: "MgExecTask \<Rightarrow> MgExecTask \<times> task_effect list" where
  "MgExecTask_abort self =
     (let (self1, out1) =
            (if task_state self = NotStarted
             then task_done False ''Aborted before started.'' (self\<lparr>task_state := Errored\<rparr>)
             else (self, []))
      in if task_state self1 = Started then (self1, out1 @ [DoAbort])
         else (self1, out1))"

subsection \<open>MgExecTaskGroup and the preconditions\<close>

text \<open>\<open>repo_fullpath\<close> is \<^verbatim>\<open>repo.fullpath\<close>, the only part of the repository the engine reads.\<close>

record MgExecTaskGroup =
  tasks :: "MgExecTask list"
  aborted :: bool
  repo_fullpath :: string

definition MgExecTaskGroup_init :: "string \<Rightarrow> MgExecTask list option \<Rightarrow> MgExecTaskGroup" where
  "MgExecTaskGroup_init path ts =
     \<lparr>tasks = (case ts of None \<Rightarrow> [] | Some l \<Rightarrow> l), aborted = False, repo_fullpath = path\<rparr>"

definition is_aborted :: "MgExecTaskGroup \<Rightarrow> bool" where
  "is_aborted self = aborted self"

definition is_finished :: "MgExecTaskGroup \<Rightarrow> bool" where
  "is_finished self =
     (if is_aborted self then True else list_all is_task_done (tasks self))"

definition is_successful :: "MgExecTaskGroup \<Rightarrow> bool" where
  "is_successful self =
     (if is_aborted self then False else list_all is_task_successful (tasks self))"

definition is_errored :: "MgExecTaskGroup \<Rightarrow> bool" where
  "is_errored self =
     (if is_aborted self then True else list_ex is_task_errored (tasks self))"

definition is_started :: "MgExecTaskGroup \<Rightarrow> bool" where
  "is_started self = list_ex is_task_started (tasks self)"

definition MgExecTaskGroup_abort :: "MgExecTaskGroup \<Rightarrow> MgExecTaskGroup" where
  "MgExecTaskGroup_abort self = self\<lparr>aborted := True\<rparr>"

text \<open>
  The two precondition builders return a closure over the referenced group, which may be
  \<^verbatim>\<open>None\<close>. The model is the closure's body, applied to the group as it is when the
  closure is called. \<open>path_exists\<close> stands for the file system:
  \<^verbatim>\<open>pathlib.Path(p).exists()\<close>; \<open>path_in ps\<close> is the file system in which exactly the paths
  in the list \<open>ps\<close> exist.
\<close>

definition path_in :: "string list \<Rightarrow> string \<Rightarrow> bool" where
  "path_in ps p = (p \<in> set ps)"

definition after_other_taskgroup_is_finished ::
    "MgExecTaskGroup option \<Rightarrow> PreConditionState" where
  "after_other_taskgroup_is_finished task_group =
     (case task_group of
        None \<Rightarrow> PreConditionErrored
      | Some g \<Rightarrow> if is_finished g then FulFilled else NotFulfilled)"

definition after_other_taskgroup_is_started_and_dir_exists ::
    "(string \<Rightarrow> bool) \<Rightarrow> MgExecTaskGroup option \<Rightarrow> PreConditionState" where
  "after_other_taskgroup_is_started_and_dir_exists path_exists task_group =
     (case task_group of
        None \<Rightarrow> PreConditionErrored
      | Some g \<Rightarrow>
          if is_finished g then FulFilled
          else if \<not> is_started g then NotFulfilled
          else if \<not> path_exists (repo_fullpath g) then NotFulfilled
          else FulFilled)"

subsection \<open>Python and Qt containers\<close>

text \<open>
  \<open>py_index xs i\<close> is the position that Python's \<^verbatim>\<open>xs[i]\<close> reads (a negative index counts
  from the end), \<open>None\<close> where Python raises \<^verbatim>\<open>IndexError\<close>. \<open>child_at cs i\<close> is Qt's
  \<^verbatim>\<open>QTreeWidgetItem.child(i)\<close>, which returns no item for an index out of range.
\<close>

definition py_index :: "'a list \<Rightarrow> int \<Rightarrow> nat option" where
  "py_index xs i =
     (if 0 \<le> i \<and> i < int (length xs) then Some (nat i)
      else if - int (length xs) \<le> i \<and> i < 0 then Some (nat (int (length xs) + i))
      else None)"

definition child_at :: "'a list \<Rightarrow> int \<Rightarrow> 'a option" where
  "child_at cs i = (if 0 \<le> i \<and> i < int (length cs) then Some (cs ! nat i) else None)"

definition and_then :: "error + 'a \<Rightarrow> ('a \<Rightarrow> error + 'b) \<Rightarrow> error + 'b" where
  "and_then r f = (case r of Inl e \<Rightarrow> Inl e | Inr x \<Rightarrow> f x)"

subsection \<open>MgExecItemOneCmd and MgExecItemMultiCmd\<close>

text \<open>
  A child of the runner's tree item is either the item of one task or the row that holds
  the button bar of a question. \<open>task\<close> is the position in \<^verbatim>\<open>taskGroup.tasks\<close> of the task
  the item was built for (the tasks of a group are distinct objects).
\<close>

record MgExecItemOneCmd =
  task :: nat
  item_abortRequested :: bool

datatype child = OneCmd MgExecItemOneCmd | ButtonBarRow

text \<open>
  The effects of the runner: those of its tasks, tagged with the task's position, the call
  of the completion callback \<^verbatim>\<open>cbExecDone\<close> and the call of \<^verbatim>\<open>taskGroup.repo.refresh()\<close>.
\<close>

datatype effect = OfTask nat task_effect | CbExecDone bool | RepoRefresh

text \<open>
  \<open>buttonBar\<close> is the widget of the pending question with the buttons it shows, \<open>None\<close>
  when no question is pending. \<open>cxx_deleted\<close> says that the dialog was closed and the C++
  objects behind the items are gone, which the two completion slots test first.
\<close>

record MgExecItemMultiCmd =
  taskGroup :: MgExecTaskGroup
  taskIdx :: int
  abortRequested :: bool
  askQuestionUponFailure :: bool
  nbCmdDone :: int
  nbError :: int
  isStarted :: bool
  buttonBar :: "UserActionOnGitError list option"
  buttonBarItem :: "nat option"
  children :: "child list"
  cxx_deleted :: bool
  effects :: "effect list"

definition MgExecItemMultiCmd_init ::
    "MgExecTaskGroup \<Rightarrow> bool \<Rightarrow> error + MgExecItemMultiCmd" where
  "MgExecItemMultiCmd_init g ask =
     (if \<not> length (tasks g) > 0 then Inl AssertionError
      else Inr \<lparr>taskGroup = g, taskIdx = - 1, abortRequested = False,
                askQuestionUponFailure = ask, nbCmdDone = 0, nbError = 0,
                isStarted = False, buttonBar = None, buttonBarItem = None,
                children = [], cxx_deleted = False, effects = []\<rparr>)"

definition isDone :: "MgExecItemMultiCmd \<Rightarrow> bool" where
  "isDone self =
     (nbCmdDone self = int (length (tasks (taskGroup self))) \<or> abortRequested self)"

definition set_task :: "nat \<Rightarrow> MgExecTask \<Rightarrow> MgExecItemMultiCmd \<Rightarrow> MgExecItemMultiCmd" where
  "set_task k t self =
     self\<lparr>taskGroup := (taskGroup self)\<lparr>tasks := (tasks (taskGroup self))[k := t]\<rparr>\<rparr>"

definition log :: "effect list \<Rightarrow> MgExecItemMultiCmd \<Rightarrow> MgExecItemMultiCmd" where
  "log es self = self\<lparr>effects := effects self @ es\<rparr>"

definition allCmdDone :: "MgExecItemMultiCmd \<Rightarrow> MgExecItemMultiCmd" where
  "allCmdDone self =
     (let self1 = self\<lparr>nbCmdDone := int (length (tasks (taskGroup self)))\<rparr>
      in log [CbExecDone (nbError self1 = 0 \<and> \<not> abortRequested self1), RepoRefresh] self1)"

definition askQuestionAfterCmdFailed :: "MgExecItemMultiCmd \<Rightarrow> MgExecItemMultiCmd" where
  "askQuestionAfterCmdFailed self =
     (if abortRequested self then self
      else
        let self1 = self\<lparr>buttonBarItem := Some (length (children self)),
                         children := children self @ [ButtonBarRow]\<rparr>;
            flags = (if \<not> isDone self1 then [CONTINUE, ABORT, RETRY]
                     else [ABORT, RETRY, OK])
        in self1\<lparr>buttonBar := Some flags\<rparr>)"

text \<open>
  \<^verbatim>\<open>MgExecItemOneCmd.run\<close> of the item built for task \<open>k\<close>: \<^verbatim>\<open>self.task.run()\<close>. The concrete
  \<^verbatim>\<open>_do_run\<close> starts the execution and returns; the completion is a later call of
  \<^verbatim>\<open>task_done\<close>. (Where a concrete task completes inside \<^verbatim>\<open>_do_run\<close>, nothing of the
  engine runs after \<^verbatim>\<open>jobitem.run()\<close> returns, so that the outcome is the one of a
  completion that arrives right after.)
\<close>

definition MgExecItemOneCmd_run :: "nat \<Rightarrow> MgExecItemMultiCmd \<Rightarrow> MgExecItemMultiCmd" where
  "MgExecItemOneCmd_run k self =
     (let (t, es) = MgExecTask_run (tasks (taskGroup self) ! k)
      in log (map (OfTask k) es) (set_task k t self))"

definition runOneCmdline :: "bool \<Rightarrow> MgExecItemMultiCmd \<Rightarrow> error + MgExecItemMultiCmd" where
  "runOneCmdline retrying self =
     and_then
       (if retrying then
          (case py_index (tasks (taskGroup self)) (taskIdx self) of
             None \<Rightarrow> Inl IndexError
           | Some lastTask \<Rightarrow>
               (case child_at (children self) (int (length (children self)) - 2) of
                  None \<Rightarrow> Inl AttributeError
                | Some ButtonBarRow \<Rightarrow> Inl AttributeError
                | Some (OneCmd lastTaskItem) \<Rightarrow>
                    if task lastTaskItem \<noteq> lastTask then Inl AssertionError
                    else
                      let slot = length (children self) - 2;
                          t = tasks (taskGroup self) ! lastTask
                      in if slot \<notin> set (sig_task_done t) then Inl RuntimeError
                         else
                           let self1 = set_task lastTask
                                 (t\<lparr>sig_task_done := removeAll slot (sig_task_done t)\<rparr>) self
                           in Inr (self1\<lparr>nbCmdDone := nbCmdDone self1 - 1,
                                         nbError := nbError self1 - 1,
                                         taskIdx := taskIdx self1 - 1\<rparr>)))
        else Inr self)
       (\<lambda>self1.
          if isDone self1 then Inl AssertionError
          else
            let self2 = self1\<lparr>taskIdx := taskIdx self1 + 1\<rparr>
            in (case py_index (tasks (taskGroup self2)) (taskIdx self2) of
                  None \<Rightarrow> Inl IndexError
                | Some k \<Rightarrow>
                    let t = tasks (taskGroup self2) ! k;
                        jobitem = length (children self2);
                        self3 = set_task k (t\<lparr>sig_task_done := sig_task_done t @ [jobitem]\<rparr>) self2;
                        self4 = self3\<lparr>children := children self3 @
                                  [OneCmd \<lparr>task = k, item_abortRequested = False\<rparr>]\<rparr>
                    in Inr (MgExecItemOneCmd_run k self4)))"

definition slotOneCmdDone :: "bool \<Rightarrow> MgExecItemMultiCmd \<Rightarrow> error + MgExecItemMultiCmd" where
  "slotOneCmdDone success self =
     (let self1 = self\<lparr>nbCmdDone := nbCmdDone self + 1\<rparr>;
          self2 = (if \<not> success then self1\<lparr>nbError := nbError self1 + 1\<rparr> else self1)
      in if cxx_deleted self2 then Inr (log [RepoRefresh] self2)
         else if \<not> success \<and> \<not> abortRequested self2 then
           (if \<not> askQuestionUponFailure self2 then Inr (allCmdDone self2)
            else Inr (askQuestionAfterCmdFailed self2))
         else if \<not> isDone self2 then runOneCmdline False self2
         else Inr (allCmdDone self2))"

text \<open>
  \<^verbatim>\<open>MgExecItemOneCmd.slotTaskDone\<close> of the child at position \<open>item\<close>. The runner builds its
  items with \<^verbatim>\<open>cbExecDone = self.slotOneCmdDone\<close> and \<^verbatim>\<open>refresh_when_completed = False\<close>.
\<close>

definition slotTaskDone ::
    "nat \<Rightarrow> bool \<Rightarrow> string \<Rightarrow> MgExecItemMultiCmd \<Rightarrow> error + MgExecItemMultiCmd" where
  "slotTaskDone item success task_stdout self =
     (if cxx_deleted self then Inr self else slotOneCmdDone success self)"

text \<open>One emission of \<^verbatim>\<open>sig_task_done\<close>: every connected slot is called, in connection order.\<close>

fun emit :: "nat list \<Rightarrow> bool \<Rightarrow> string \<Rightarrow> MgExecItemMultiCmd \<Rightarrow> error + MgExecItemMultiCmd" where
  "emit [] success output self = Inr self"
| "emit (item # items) success output self =
     and_then (slotTaskDone item success output self) (emit items success output)"

text \<open>
  The effects of a method of task \<open>k\<close>, inside the runner: each is recorded, and an
  emission of \<^verbatim>\<open>sig_task_done\<close> calls the slots connected at that moment.
\<close>

fun perform :: "nat \<Rightarrow> task_effect list \<Rightarrow> MgExecItemMultiCmd \<Rightarrow> error + MgExecItemMultiCmd" where
  "perform k [] self = Inr self"
| "perform k (SigTaskDone success output # es) self =
     and_then
       (emit (sig_task_done (tasks (taskGroup self) ! k)) success output
          (log [OfTask k (SigTaskDone success output)] self))
       (perform k es)"
| "perform k (e # es) self = perform k es (log [OfTask k e] self)"

definition handleQuestionResult ::
    "UserActionOnGitError \<Rightarrow> MgExecItemMultiCmd \<Rightarrow> error + MgExecItemMultiCmd" where
  "handleQuestionResult result self =
     (if buttonBarItem self = None then Inl AssertionError
      else
        let self1 = self\<lparr>buttonBar := None\<rparr>
        in (case child_at (children self1) (int (length (children self1)) - 2) of
              None \<Rightarrow> Inl AttributeError
            | Some lastTaskItem \<Rightarrow>
                if result = ABORT \<or> abortRequested self1 then
                  Inr (allCmdDone (self1\<lparr>taskGroup := MgExecTaskGroup_abort (taskGroup self1)\<rparr>))
                else if result = CONTINUE then runOneCmdline False self1
                else if result = RETRY then runOneCmdline True self1
                else if result = OK then Inr (allCmdDone self1)
                else Inl AssertionError))"

definition MgExecItemOneCmd_abortItem ::
    "nat \<Rightarrow> MgExecItemOneCmd \<Rightarrow> MgExecItemMultiCmd \<Rightarrow> error + MgExecItemMultiCmd" where
  "MgExecItemOneCmd_abortItem pos item self =
     (let self1 = self\<lparr>children :=
                    (children self)[pos := OneCmd (item\<lparr>item_abortRequested := True\<rparr>)]\<rparr>;
          k = task item
      in if is_task_done (tasks (taskGroup self1) ! k) then Inr self1
         else
           let (t, es) = MgExecTask_abort (tasks (taskGroup self1) ! k)
           in perform k es (set_task k t self1))"

text \<open>
  The loop of \<^verbatim>\<open>MgExecItemMultiCmd.abortItem\<close> over the children, from position \<open>idx\<close>: the
  first item whose task is started and not done is aborted; when there is none, the
  \<^verbatim>\<open>ValueError\<close> behind the loop is raised.
\<close>

fun abort_in_progress ::
    "child list \<Rightarrow> nat \<Rightarrow> MgExecItemMultiCmd \<Rightarrow> error + MgExecItemMultiCmd" where
  "abort_in_progress [] idx self = Inl ValueError"
| "abort_in_progress (ButtonBarRow # cs) idx self = abort_in_progress cs (Suc idx) self"
| "abort_in_progress (OneCmd item # cs) idx self =
     (if is_task_started (tasks (taskGroup self) ! task item)
         \<and> \<not> is_task_done (tasks (taskGroup self) ! task item)
      then MgExecItemOneCmd_abortItem idx item self
      else abort_in_progress cs (Suc idx) self)"

definition MgExecItemMultiCmd_abortItem ::
    "MgExecItemMultiCmd \<Rightarrow> error + MgExecItemMultiCmd" where
  "MgExecItemMultiCmd_abortItem self =
     (let self1 = self\<lparr>taskGroup := MgExecTaskGroup_abort (taskGroup self)\<rparr>;
          self2 = self1\<lparr>abortRequested := True\<rparr>
      in if buttonBar self2 \<noteq> None then handleQuestionResult ABORT self2
         else if nbCmdDone self2 = int (length (tasks (taskGroup self2))) then
           Inr (self2\<lparr>abortRequested := False\<rparr>)
         else if \<not> isStarted self2 then Inr (allCmdDone self2)
         else abort_in_progress (children self2) 0 self2)"

definition MgExecItemMultiCmd_run :: "MgExecItemMultiCmd \<Rightarrow> error + MgExecItemMultiCmd" where
  "MgExecItemMultiCmd_run self = runOneCmdline False (self\<lparr>isStarted := True\<rparr>)"

subsection \<open>The runner driven by its environment\<close>

text \<open>
  The runner is called from outside in four ways: \<^verbatim>\<open>run()\<close>; the concrete execution of
  task \<open>k\<close> reports its end by \<^verbatim>\<open>task_done(success, output)\<close>; the user presses a button of
  the question; \<^verbatim>\<open>abortItem()\<close>.
\<close>

datatype event =
    Run | TaskDone nat bool string | UserChoice UserActionOnGitError | AbortItem

definition handle :: "event \<Rightarrow> MgExecItemMultiCmd \<Rightarrow> error + MgExecItemMultiCmd" where
  "handle ev self =
     (case ev of
        Run \<Rightarrow> MgExecItemMultiCmd_run self
      | TaskDone k success output \<Rightarrow>
          if k < length (tasks (taskGroup self)) then
            let (t, es) = task_done success output (tasks (taskGroup self) ! k)
            in perform k es (set_task k t self)
          else Inl IndexError
      | UserChoice result \<Rightarrow> handleQuestionResult result self
      | AbortItem \<Rightarrow> MgExecItemMultiCmd_abortItem self)"

text \<open>
  What the environment does: the runner is started once; only a task whose execution was
  dispatched and has not reported yet (state \<open>Started\<close>) reports its end; the user can only
  press a button that the pending question shows; \<^verbatim>\<open>abortItem()\<close> may come at any time.
\<close>

definition enabled :: "event \<Rightarrow> MgExecItemMultiCmd \<Rightarrow> bool" where
  "enabled ev self =
     (case ev of
        Run \<Rightarrow> \<not> isStarted self
      | TaskDone k success output \<Rightarrow>
          k < length (tasks (taskGroup self))
          \<and> task_state (tasks (taskGroup self) ! k) = Started
      | UserChoice result \<Rightarrow>
          (case buttonBar self of None \<Rightarrow> False | Some flags \<Rightarrow> result \<in> set flags)
      | AbortItem \<Rightarrow> True)"

fun exec :: "event list \<Rightarrow> MgExecItemMultiCmd \<Rightarrow> MgExecItemMultiCmd option" where
  "exec [] self = Some self"
| "exec (ev # evs) self =
     (if enabled ev self then
        (case handle ev self of Inl e \<Rightarrow> None | Inr self1 \<Rightarrow> exec evs self1)
      else None)"

text \<open>A group as its constructor and \<^verbatim>\<open>appendTask\<close> leave it: no task started, no slot connected.\<close>

definition fresh_task :: "MgExecTask \<Rightarrow> bool" where
  "fresh_task t = (task_state t = NotStarted \<and> sig_task_done t = [])"

definition fresh_group :: "MgExecTaskGroup \<Rightarrow> bool" where
  "fresh_group g = (\<not> aborted g \<and> list_all fresh_task (tasks g))"

text \<open>The runner built for group \<open>g\<close> and driven by the events \<open>evs\<close>.\<close>

definition run_from :: "MgExecTaskGroup \<Rightarrow> bool \<Rightarrow> event list \<Rightarrow> MgExecItemMultiCmd option" where
  "run_from g ask evs =
     (case MgExecItemMultiCmd_init g ask of Inl e \<Rightarrow> None | Inr self \<Rightarrow> exec evs self)"

text \<open>The results passed to \<^verbatim>\<open>cbExecDone\<close>, in call order.\<close>

fun callbacks :: "effect list \<Rightarrow> bool list" where
  "callbacks [] = []"
| "callbacks (CbExecDone b # es) = b # callbacks es"
| "callbacks (e # es) = callbacks es"

text \<open>
  The positions of the tasks whose \<^verbatim>\<open>_do_run\<close> was called, in call order, and what it means
  for them to follow the sequence: the first is task 0, and each further one is the task
  dispatched before it (a retry) or the next task.
\<close>

fun dispatched :: "effect list \<Rightarrow> nat list" where
  "dispatched [] = []"
| "dispatched (OfTask k DoRun # es) = k # dispatched es"
| "dispatched (e # es) = dispatched es"

fun in_run_order :: "nat \<Rightarrow> nat list \<Rightarrow> bool" where
  "in_run_order p [] = True"
| "in_run_order p (k # ks) = ((k = p \<or> k = Suc p) \<and> in_run_order k ks)"

definition sequence_order :: "nat list \<Rightarrow> bool" where
  "sequence_order ks = (case ks of [] \<Rightarrow> True | k # ks1 \<Rightarrow> k = 0 \<and> in_run_order 0 ks1)"

subsection \<open>The phases of a run\<close>

text \<open>
  The states that a runner goes through, as predicates for the proofs below. \<open>i\<close> is the
  position of the current task: before it every task is done, behind it every task is as
  it was built.
\<close>

fun item_task :: "child \<Rightarrow> nat option" where
  "item_task (OneCmd item) = Some (task item)"
| "item_task ButtonBarRow = None"

definition items_upto :: "nat \<Rightarrow> child list \<Rightarrow> bool" where
  "items_upto i cs =
     list_all (\<lambda>c. case item_task c of Some k \<Rightarrow> k \<le> i | None \<Rightarrow> True) cs"

definition phase_idle :: "MgExecItemMultiCmd \<Rightarrow> bool" where
  "phase_idle self =
     (\<not> isStarted self \<and> taskIdx self = - 1 \<and> nbCmdDone self = 0 \<and> nbError self = 0
      \<and> \<not> abortRequested self \<and> \<not> aborted (taskGroup self) \<and> buttonBar self = None
      \<and> children self = [] \<and> effects self = []
      \<and> list_all fresh_task (tasks (taskGroup self)))"

definition phase_running :: "nat \<Rightarrow> MgExecItemMultiCmd \<Rightarrow> bool" where
  "phase_running i self =
     (let ts = tasks (taskGroup self) in
      isStarted self \<and> taskIdx self = int i \<and> i < length ts
      \<and> nbCmdDone self = int i \<and> 0 \<le> nbError self
      \<and> (\<not> askQuestionUponFailure self \<longrightarrow> nbError self = 0)
      \<and> buttonBar self = None \<and> aborted (taskGroup self) = abortRequested self
      \<and> task_state (ts ! i) = Started
      \<and> list_all is_task_done (take i ts) \<and> list_all fresh_task (drop (Suc i) ts)
      \<and> children self \<noteq> []
      \<and> item_task (last (children self)) = Some i
      \<and> sig_task_done (ts ! i) = [length (children self) - 1]
      \<and> items_upto i (children self)
      \<and> callbacks (effects self) = []
      \<and> sequence_order (dispatched (effects self))
      \<and> dispatched (effects self) \<noteq> [] \<and> last (dispatched (effects self)) = i)"

definition phase_asking :: "nat \<Rightarrow> MgExecItemMultiCmd \<Rightarrow> bool" where
  "phase_asking i self =
     (let ts = tasks (taskGroup self) in
      isStarted self \<and> taskIdx self = int i \<and> i < length ts
      \<and> nbCmdDone self = int i + 1 \<and> 1 \<le> nbError self
      \<and> askQuestionUponFailure self
      \<and> \<not> abortRequested self \<and> \<not> aborted (taskGroup self)
      \<and> buttonBar self = Some (if isDone self then [ABORT, RETRY, OK]
                                 else [CONTINUE, ABORT, RETRY])
      \<and> buttonBarItem self \<noteq> None
      \<and> task_state (ts ! i) = Errored
      \<and> list_all is_task_done (take i ts) \<and> list_all fresh_task (drop (Suc i) ts)
      \<and> 2 \<le> length (children self)
      \<and> item_task (children self ! (length (children self) - 2)) = Some i
      \<and> sig_task_done (ts ! i) = [length (children self) - 2]
      \<and> items_upto i (children self)
      \<and> callbacks (effects self) = []
      \<and> sequence_order (dispatched (effects self))
      \<and> dispatched (effects self) \<noteq> [] \<and> last (dispatched (effects self)) = i)"

definition phase_finalized :: "nat \<Rightarrow> MgExecItemMultiCmd \<Rightarrow> bool" where
  "phase_finalized k self =
     (let ts = tasks (taskGroup self) in
      nbCmdDone self = int (length ts) \<and> 0 \<le> nbError self \<and> buttonBar self = None
      \<and> taskIdx self = int k - 1 \<and> k \<le> length ts
      \<and> list_all is_task_done (take k ts)
      \<and> list_all (\<lambda>t. task_state t = NotStarted) (drop k ts)
      \<and> length (callbacks (effects self)) = 1
      \<and> sequence_order (dispatched (effects self)))"

definition same_setup :: "MgExecItemMultiCmd \<Rightarrow> MgExecItemMultiCmd \<Rightarrow> bool" where
  "same_setup self self1 =
     (cxx_deleted self1 = cxx_deleted self
      \<and> askQuestionUponFailure self1 = askQuestionUponFailure self
      \<and> length (tasks (taskGroup self1)) = length (tasks (taskGroup self)))"

text \<open>
  What one step does to the completion callback: nothing, or the first and only call, whose
  argument is read off the state in which the step ends.
\<close>

definition reports :: "MgExecItemMultiCmd \<Rightarrow> MgExecItemMultiCmd \<Rightarrow> bool" where
  "reports self self1 =
     (callbacks (effects self1) = callbacks (effects self)
      \<or> (callbacks (effects self) = []
          \<and> callbacks (effects self1) = [nbError self1 = 0 \<and> \<not> abortRequested self1]
          \<and> callbacks (effects self1) = [nbError self1 = 0 \<and> \<not> aborted (taskGroup self1)]
          \<and> nbCmdDone self1 = int (length (tasks (taskGroup self1)))))"

definition step_rel :: "MgExecItemMultiCmd \<Rightarrow> MgExecItemMultiCmd \<Rightarrow> bool" where
  "step_rel self self1 = (same_setup self self1 \<and> reports self self1)"

definition in_phase :: "MgExecItemMultiCmd \<Rightarrow> bool" where
  "in_phase s = (phase_idle s \<or> (\<exists>i. phase_running i s) \<or> (\<exists>i. phase_asking i s)
                 \<or> (\<exists>k. phase_finalized k s))"

section \<open>Lemmas on the runner\<close>

lemma callbacks_append [simp]: "callbacks (es @ fs) = callbacks es @ callbacks fs"
  by (induction es rule: callbacks.induct) simp_all

lemma dispatched_append [simp]: "dispatched (es @ fs) = dispatched es @ dispatched fs"
  by (induction es rule: dispatched.induct) simp_all

lemma in_run_order_snoc:
  "in_run_order p (ks @ [k]) =
     (in_run_order p ks \<and> (k = last (p # ks) \<or> k = Suc (last (p # ks))))"
  by (induction ks arbitrary: p) auto

lemma sequence_order_snoc:
  "sequence_order (ks @ [k]) =
     (if ks = [] then k = 0 else sequence_order ks \<and> (k = last ks \<or> k = Suc (last ks)))"
  by (cases ks) (auto simp add: sequence_order_def in_run_order_snoc)

lemma sequence_order_Nil [simp]: "sequence_order []"
  by (simp add: sequence_order_def)

lemma sequence_order_single [simp]: "sequence_order [k] = (k = 0)"
  by (simp add: sequence_order_def)

lemma and_then_Inr [simp]: "and_then (Inr x) f = f x"
  by (simp add: and_then_def)

lemma and_then_Inl [simp]: "and_then (Inl e) f = Inl e"
  by (simp add: and_then_def)

lemma py_index_nat [simp]: "k < length xs \<Longrightarrow> py_index xs (int k) = Some k"
  by (simp add: py_index_def)

lemma runOneCmdline_next:
  assumes "\<not> isDone s" and "taskIdx s + 1 = int k" and "k < length (tasks (taskGroup s))"
    and "task_state (tasks (taskGroup s) ! k) \<noteq> Started"
  shows "runOneCmdline False s =
     Inr (s\<lparr>taskGroup := (taskGroup s)\<lparr>tasks := (tasks (taskGroup s))
              [k := (tasks (taskGroup s) ! k)
                 \<lparr>task_state := Started,
                  sig_task_done := sig_task_done (tasks (taskGroup s) ! k) @ [length (children s)]\<rparr>]\<rparr>,
            taskIdx := int k,
            children := children s @ [OneCmd \<lparr>task = k, item_abortRequested = False\<rparr>],
            effects := effects s @ [OfTask k DoRun]\<rparr>)"
  using assms
  by (auto simp add: runOneCmdline_def isDone_def Let_def set_task_def MgExecItemOneCmd_run_def
      MgExecTask_run_def log_def intro!: MgExecItemMultiCmd.equality MgExecTask.equality
      MgExecTaskGroup.equality arg_cong2[where f="list_update _"])

lemma running_started_unique:
  assumes "phase_running i s" and "k < length (tasks (taskGroup s))"
    and "task_state (tasks (taskGroup s) ! k) = Started"
  shows "k = i"
proof (rule ccontr)
  let ?ts = "tasks (taskGroup s)"
  assume ne: "k \<noteq> i"
  from assms(1) have d: "list_all is_task_done (take i ?ts)"
    and f: "list_all fresh_task (drop (Suc i) ?ts)" and il: "i < length ?ts"
    by (simp_all add: phase_running_def Let_def)
  show False
  proof (cases "k < i")
    case True
    then have "is_task_done (?ts ! k)" using d il by (auto simp add: list_all_length)
    with assms(3) show False by (simp add: is_task_done_def)
  next
    case False
    with ne have gt: "i < k" by simp
    have "k - Suc i < length (drop (Suc i) ?ts)" using gt assms(2) by simp
    with f have "fresh_task (drop (Suc i) ?ts ! (k - Suc i))"
      unfolding list_all_length by blast
    with gt assms(2,3) show False by (simp add: fresh_task_def)
  qed
qed

lemma and_then_emit_Nil [simp]: "and_then r (emit [] success output) = r"
  by (cases r) simp_all

lemma and_then_perform_Nil [simp]: "and_then r (perform k []) = r"
  by (cases r) simp_all

lemma handle_TaskDone_single_slot:
  assumes "k < length (tasks (taskGroup s))" and "\<not> cxx_deleted s"
    and "sig_task_done (tasks (taskGroup s) ! k) = [slot]"
  shows "handle (TaskDone k success output) s =
     slotOneCmdDone (success \<or> ignore_failure (tasks (taskGroup s) ! k))
       (s\<lparr>taskGroup := (taskGroup s)\<lparr>tasks := (tasks (taskGroup s))
              [k := (tasks (taskGroup s) ! k)
                 \<lparr>task_state := (if success then Successful else Errored)\<rparr>]\<rparr>,
          effects := effects s @
            [OfTask k (SigTaskDone (success \<or> ignore_failure (tasks (taskGroup s) ! k)) output)]\<rparr>)"
  using assms
  by (auto simp add: handle_def task_done_def Let_def set_task_def log_def slotTaskDone_def
      intro!: arg_cong2[where f=slotOneCmdDone] MgExecItemMultiCmd.equality
        MgExecTask.equality MgExecTaskGroup.equality)

lemma list_all_take_iff:
  "list_all P (take i ts) = (\<forall>j. j < i \<and> j < length ts \<longrightarrow> P (ts ! j))"
  by (auto simp add: list_all_length)

lemma list_all_drop_iff:
  "list_all P (drop k ts) = (\<forall>j. k \<le> j \<and> j < length ts \<longrightarrow> P (ts ! j))"
proof
  assume a: "list_all P (drop k ts)"
  show "\<forall>j. k \<le> j \<and> j < length ts \<longrightarrow> P (ts ! j)"
  proof (intro allI impI)
    fix j assume j: "k \<le> j \<and> j < length ts"
    then have "j - k < length (drop k ts)" by auto
    with a have "P (drop k ts ! (j - k))" unfolding list_all_length by blast
    with j show "P (ts ! j)" by simp
  qed
next
  assume "\<forall>j. k \<le> j \<and> j < length ts \<longrightarrow> P (ts ! j)"
  then show "list_all P (drop k ts)" by (simp add: list_all_length)
qed

lemma items_upto_mono: "items_upto i cs \<Longrightarrow> i \<le> j \<Longrightarrow> items_upto j cs"
  by (induction cs) (auto simp add: items_upto_def split: option.splits)

lemma items_upto_append [simp]:
  "items_upto i (cs @ ds) = (items_upto i cs \<and> items_upto i ds)"
  by (simp add: items_upto_def)

lemma items_upto_single [simp]:
  "items_upto i [OneCmd item] = (task item \<le> i)" "items_upto i [ButtonBarRow]"
  by (simp_all add: items_upto_def)

lemma nat_int_Suc [simp]: "nat (int k + 1) = Suc k"
  by simp

lemma runOneCmdline_next_idx:
  assumes "\<not> isDone s" and "- 1 \<le> taskIdx s"
    and "nat (taskIdx s + 1) < length (tasks (taskGroup s))"
    and "task_state (tasks (taskGroup s) ! nat (taskIdx s + 1)) \<noteq> Started"
  shows "runOneCmdline False s =
     Inr (s\<lparr>taskGroup := (taskGroup s)\<lparr>tasks := (tasks (taskGroup s))
              [nat (taskIdx s + 1) := (tasks (taskGroup s) ! nat (taskIdx s + 1))
                 \<lparr>task_state := Started,
                  sig_task_done := sig_task_done (tasks (taskGroup s) ! nat (taskIdx s + 1))
                     @ [length (children s)]\<rparr>]\<rparr>,
            taskIdx := taskIdx s + 1,
            children := children s @
               [OneCmd \<lparr>task = nat (taskIdx s + 1), item_abortRequested = False\<rparr>],
            effects := effects s @ [OfTask (nat (taskIdx s + 1)) DoRun]\<rparr>)"
proof -
  from assms(2) have "taskIdx s + 1 = int (nat (taskIdx s + 1))" by simp
  from runOneCmdline_next[OF assms(1) this assms(3,4)] assms(2) show ?thesis by simp
qed

lemma running_TaskDone:
  assumes run: "phase_running i s" and alive: "\<not> cxx_deleted s"
    and en: "enabled (TaskDone k success output) s"
  shows "\<exists>s'. handle (TaskDone k success output) s = Inr s'
           \<and> step_rel s s'
           \<and> (phase_running (Suc i) s' \<or> phase_asking i s' \<or> phase_finalized (Suc i) s')"
proof -
  let ?ts = "tasks (taskGroup s)"
  from en have kl: "k < length ?ts" and st: "task_state (?ts ! k) = Started"
    by (simp_all add: enabled_def)
  from running_started_unique[OF run kl st] have k: "k = i" .
  from run have slot: "sig_task_done (?ts ! k) = [length (children s) - 1]"
    by (simp add: phase_running_def Let_def k)
  note h = handle_TaskDone_single_slot[OF kl alive slot, of success "output"]
  from run have facts:
    "isStarted s" "taskIdx s = int k" "nbCmdDone s = int k" "0 \<le> nbError s"
    "\<not> askQuestionUponFailure s \<longrightarrow> nbError s = 0"
    "buttonBar s = None" "aborted (taskGroup s) = abortRequested s"
    "\<forall>j. j < k \<and> j < length ?ts \<longrightarrow> is_task_done (?ts ! j)"
    "\<forall>j. Suc k \<le> j \<and> j < length ?ts \<longrightarrow> fresh_task (?ts ! j)"
    "children s \<noteq> []"
    "item_task (last (children s)) = Some k"
    "items_upto k (children s)"
    "callbacks (effects s) = []"
    "sequence_order (dispatched (effects s))"
    "dispatched (effects s) \<noteq> []" "last (dispatched (effects s)) = k"
    by (simp_all add: phase_running_def Let_def list_all_take_iff list_all_drop_iff k)
  let ?b = "success \<or> ignore_failure (?ts ! k)"
  consider (fail_noask) "\<not> ?b" "\<not> abortRequested s" "\<not> askQuestionUponFailure s"
    | (fail_ask) "\<not> ?b" "\<not> abortRequested s" "askQuestionUponFailure s"
    | (advance) "?b" "\<not> abortRequested s" "Suc k < length ?ts"
    | (final) "?b" "\<not> abortRequested s" "Suc k = length ?ts"
    | (aborting) "abortRequested s"
    using kl by linarith
  then show ?thesis
  proof cases
    case fail_noask
    then have "\<exists>s'. handle (TaskDone k success output) s = Inr s'
           \<and> step_rel s s'
           \<and> phase_finalized (Suc k) s'"
      unfolding h using facts kl alive
      by (auto simp add: slotOneCmdDone_def step_rel_def same_setup_def reports_def sequence_order_snoc Let_def log_def allCmdDone_def phase_finalized_def
          list_all_take_iff list_all_drop_iff nth_list_update is_task_done_def fresh_task_def
          less_Suc_eq)
    then show ?thesis unfolding k by blast
  next
    case fail_ask
    then have "\<exists>s'. handle (TaskDone k success output) s = Inr s'
           \<and> step_rel s s'
           \<and> phase_asking k s'"
      unfolding h using facts kl alive slot
      by (auto simp add: slotOneCmdDone_def step_rel_def same_setup_def reports_def sequence_order_snoc Let_def log_def askQuestionAfterCmdFailed_def
          phase_asking_def isDone_def Suc_le_eq
          list_all_take_iff list_all_drop_iff nth_list_update is_task_done_def fresh_task_def
          less_Suc_eq nth_append last_conv_nth)
    then show ?thesis unfolding k by blast
  next
    case advance
    then have "\<exists>s'. handle (TaskDone k success output) s = Inr s'
           \<and> step_rel s s'
           \<and> phase_running (Suc k) s'"
      unfolding h using facts kl alive
      by (auto simp add: slotOneCmdDone_def step_rel_def same_setup_def reports_def sequence_order_snoc Let_def log_def phase_running_def
          isDone_def runOneCmdline_next_idx
          list_all_take_iff list_all_drop_iff nth_list_update is_task_done_def fresh_task_def
          less_Suc_eq items_upto_mono)
    then show ?thesis unfolding k by blast
  next
    case final
    then have "\<exists>s'. handle (TaskDone k success output) s = Inr s'
           \<and> step_rel s s'
           \<and> phase_finalized (Suc k) s'"
      unfolding h using facts kl alive
      by (auto simp add: slotOneCmdDone_def step_rel_def same_setup_def reports_def sequence_order_snoc Let_def log_def allCmdDone_def phase_finalized_def
          isDone_def
          list_all_take_iff list_all_drop_iff nth_list_update is_task_done_def fresh_task_def
          less_Suc_eq)
    then show ?thesis unfolding k by blast
  next
    case aborting
    then have "\<exists>s'. handle (TaskDone k success output) s = Inr s'
           \<and> step_rel s s'
           \<and> phase_finalized (Suc k) s'"
      unfolding h using facts kl alive
      by (auto simp add: slotOneCmdDone_def step_rel_def same_setup_def reports_def sequence_order_snoc Let_def log_def allCmdDone_def phase_finalized_def
          isDone_def
          list_all_take_iff list_all_drop_iff nth_list_update is_task_done_def fresh_task_def
          less_Suc_eq)
    then show ?thesis unfolding k by blast
  qed
qed

lemma MgExecTaskGroup_abort_simps [simp]:
  "tasks (MgExecTaskGroup_abort g) = tasks g" "aborted (MgExecTaskGroup_abort g)"
  by (simp_all add: MgExecTaskGroup_abort_def)

lemma MgExecItemOneCmd_abortItem_started:
  assumes "task_state (tasks (taskGroup s) ! task item) = Started"
  shows "MgExecItemOneCmd_abortItem pos item s =
     Inr (s\<lparr>children := (children s)[pos := OneCmd (item\<lparr>item_abortRequested := True\<rparr>)],
            effects := effects s @ [OfTask (task item) DoAbort]\<rparr>)"
  using assms
  by (auto simp add: MgExecItemOneCmd_abortItem_def Let_def is_task_done_def MgExecTask_abort_def
      set_task_def log_def intro!: MgExecItemMultiCmd.equality MgExecTaskGroup.equality)

lemma abort_in_progress_found:
  assumes "items_upto i cs" and "Some i \<in> item_task ` set cs"
    and "task_state (tasks (taskGroup s) ! i) = Started"
    and "\<forall>j<i. is_task_done (tasks (taskGroup s) ! j)"
  shows "\<exists>p item. p < length cs \<and> cs ! p = OneCmd item \<and> task item = i
           \<and> abort_in_progress cs idx s = MgExecItemOneCmd_abortItem (idx + p) item s"
  using assms(1,2)
proof (induction cs arbitrary: idx)
  case Nil
  then show ?case by simp
next
  case (Cons c cs)
  show ?case
  proof (cases c)
    case ButtonBarRow
    with Cons.prems have "items_upto i cs" "Some i \<in> item_task ` set cs"
      by (auto simp add: items_upto_def)
    from Cons.IH[OF this, of "Suc idx"] obtain p item where
      "p < length cs" "cs ! p = OneCmd item" "task item = i"
      "abort_in_progress cs (Suc idx) s = MgExecItemOneCmd_abortItem (Suc idx + p) item s"
      by blast
    then have "Suc p < length (c # cs) \<and> (c # cs) ! Suc p = OneCmd item \<and> task item = i
        \<and> abort_in_progress (c # cs) idx s = MgExecItemOneCmd_abortItem (idx + Suc p) item s"
      using ButtonBarRow by simp
    then show ?thesis by blast
  next
    case (OneCmd item0)
    show ?thesis
    proof (cases "task item0 = i")
      case True
      then have "0 < length (c # cs) \<and> (c # cs) ! 0 = OneCmd item0 \<and> task item0 = i
        \<and> abort_in_progress (c # cs) idx s = MgExecItemOneCmd_abortItem (idx + 0) item0 s"
        using OneCmd assms(3) by (simp add: is_task_started_def is_task_done_def)
      then show ?thesis by blast
    next
      case False
      with Cons.prems OneCmd have lt: "task item0 < i" by (simp add: items_upto_def)
      with assms(4) have dn: "is_task_done (tasks (taskGroup s) ! task item0)" by blast
      from Cons.prems OneCmd False have "items_upto i cs" "Some i \<in> item_task ` set cs"
        by (auto simp add: items_upto_def)
      from Cons.IH[OF this, of "Suc idx"] obtain p item where
        "p < length cs" "cs ! p = OneCmd item" "task item = i"
        "abort_in_progress cs (Suc idx) s = MgExecItemOneCmd_abortItem (Suc idx + p) item s"
        by blast
      then have "Suc p < length (c # cs) \<and> (c # cs) ! Suc p = OneCmd item \<and> task item = i
        \<and> abort_in_progress (c # cs) idx s = MgExecItemOneCmd_abortItem (idx + Suc p) item s"
        using OneCmd dn by simp
      then show ?thesis by blast
    qed
  qed
qed

lemma items_upto_update:
  "items_upto i cs \<Longrightarrow> task item \<le> i \<Longrightarrow> items_upto i (cs[p := OneCmd item])"
  unfolding items_upto_def list_all_iff
  by (auto dest!: subsetD[OF set_update_subset_insert])

lemma item_task_last_update:
  assumes "cs \<noteq> []" and "item_task (last cs) = Some i" and "p < length cs"
    and "item_task (cs ! p) = Some (task item)"
  shows "item_task (last (cs[p := OneCmd item])) = Some i"
  using assms by (cases "p = length cs - 1") (auto simp add: last_conv_nth)

lemma running_AbortItem:
  assumes run: "phase_running i s" and alive: "\<not> cxx_deleted s"
  shows "\<exists>s'. handle AbortItem s = Inr s'
           \<and> step_rel s s'
           \<and> phase_running i s'"
proof -
  let ?ts = "tasks (taskGroup s)"
  let ?s2 = "s\<lparr>taskGroup := MgExecTaskGroup_abort (taskGroup s), abortRequested := True\<rparr>"
  from run have facts:
    "isStarted s" "taskIdx s = int i" "nbCmdDone s = int i" "0 \<le> nbError s" "i < length ?ts"
    "\<not> askQuestionUponFailure s \<longrightarrow> nbError s = 0"
    "buttonBar s = None" "aborted (taskGroup s) = abortRequested s"
    "task_state (?ts ! i) = Started"
    "\<forall>j. j < i \<and> j < length ?ts \<longrightarrow> is_task_done (?ts ! j)"
    "\<forall>j. Suc i \<le> j \<and> j < length ?ts \<longrightarrow> fresh_task (?ts ! j)"
    "children s \<noteq> []"
    "item_task (last (children s)) = Some i"
    "sig_task_done (?ts ! i) = [length (children s) - 1]"
    "items_upto i (children s)"
    "callbacks (effects s) = []"
    "sequence_order (dispatched (effects s))"
    "dispatched (effects s) \<noteq> []" "last (dispatched (effects s)) = i"
    by (simp_all add: phase_running_def Let_def list_all_take_iff list_all_drop_iff)
  have h: "handle AbortItem s = abort_in_progress (children s) 0 ?s2"
    using facts by (simp add: handle_def MgExecItemMultiCmd_abortItem_def Let_def)
  have ts2: "tasks (taskGroup ?s2) = ?ts" by (simp add: MgExecTaskGroup_abort_def)
  have mem: "Some i \<in> item_task ` set (children s)"
    using facts(12,13) by (metis image_eqI last_in_set)
  have dn: "\<forall>j<i. is_task_done (tasks (taskGroup ?s2) ! j)"
    using facts(5,10) by (simp add: ts2)
  from abort_in_progress_found[OF facts(15) mem _ dn, of 0] facts(9)
  obtain p item where p: "p < length (children s)" "children s ! p = OneCmd item" "task item = i"
    "abort_in_progress (children s) 0 ?s2 = MgExecItemOneCmd_abortItem p item ?s2"
    by (auto simp add: ts2)
  have "MgExecItemOneCmd_abortItem p item ?s2 =
     Inr (?s2\<lparr>children := (children ?s2)[p := OneCmd (item\<lparr>item_abortRequested := True\<rparr>)],
            effects := effects ?s2 @ [OfTask (task item) DoAbort]\<rparr>)"
    by (rule MgExecItemOneCmd_abortItem_started) (simp add: ts2 p facts)
  moreover have "phase_running i
     (?s2\<lparr>children := (children ?s2)[p := OneCmd (item\<lparr>item_abortRequested := True\<rparr>)],
            effects := effects ?s2 @ [OfTask (task item) DoAbort]\<rparr>)"
    using facts p
    by (simp add: phase_running_def Let_def MgExecTaskGroup_abort_def list_all_take_iff
        list_all_drop_iff items_upto_update item_task_last_update)
  ultimately show ?thesis using h p alive by (simp add: step_rel_def same_setup_def reports_def sequence_order_snoc)
qed

lemma item_task_SomeD: "item_task c = Some i \<Longrightarrow> \<exists>item. c = OneCmd item \<and> task item = i"
  by (cases c) auto

lemma runOneCmdline_retry:
  assumes "taskIdx s = int i" and "i < length (tasks (taskGroup s))"
    and "2 \<le> length (children s)"
    and "item_task (children s ! (length (children s) - 2)) = Some i"
    and "length (children s) - 2 \<in> set (sig_task_done (tasks (taskGroup s) ! i))"
  shows "runOneCmdline True s =
     runOneCmdline False
       (s\<lparr>taskGroup := (taskGroup s)\<lparr>tasks := (tasks (taskGroup s))
              [i := (tasks (taskGroup s) ! i)
                 \<lparr>sig_task_done := removeAll (length (children s) - 2)
                     (sig_task_done (tasks (taskGroup s) ! i))\<rparr>]\<rparr>,
          nbCmdDone := nbCmdDone s - 1, nbError := nbError s - 1, taskIdx := taskIdx s - 1\<rparr>)"
proof -
  from item_task_SomeD[OF assms(4)] obtain item where
    it: "children s ! (length (children s) - 2) = OneCmd item" "task item = i" by blast
  have c: "child_at (children s) (int (length (children s)) - 2) = Some (OneCmd item)"
    using assms(3) it(1) by (simp add: child_at_def nat_diff_distrib')
  have "runOneCmdline True s = and_then (Inr
       (s\<lparr>taskGroup := (taskGroup s)\<lparr>tasks := (tasks (taskGroup s))
              [i := (tasks (taskGroup s) ! i)
                 \<lparr>sig_task_done := removeAll (length (children s) - 2)
                     (sig_task_done (tasks (taskGroup s) ! i))\<rparr>]\<rparr>,
          nbCmdDone := nbCmdDone s - 1, nbError := nbError s - 1, taskIdx := taskIdx s - 1\<rparr>))
       (\<lambda>x. runOneCmdline False x)"
    using assms(1,2,5) it(2)
    by (simp add: runOneCmdline_def[of True] runOneCmdline_def[of False] c Let_def set_task_def)
  then show ?thesis by simp
qed

lemma asking_facts:
  assumes "phase_asking i s"
  shows "isStarted s" "taskIdx s = int i" "i < length (tasks (taskGroup s))"
    "nbCmdDone s = int i + 1" "1 \<le> nbError s" "askQuestionUponFailure s"
    "\<not> abortRequested s" "\<not> aborted (taskGroup s)"
    "buttonBar s = Some (if Suc i = length (tasks (taskGroup s)) then [ABORT, RETRY, OK]
                          else [CONTINUE, ABORT, RETRY])"
    "buttonBarItem s \<noteq> None"
    "task_state (tasks (taskGroup s) ! i) = Errored"
    "\<forall>j. j < i \<and> j < length (tasks (taskGroup s)) \<longrightarrow> is_task_done (tasks (taskGroup s) ! j)"
    "\<forall>j. Suc i \<le> j \<and> j < length (tasks (taskGroup s)) \<longrightarrow> fresh_task (tasks (taskGroup s) ! j)"
    "2 \<le> length (children s)"
    "item_task (children s ! (length (children s) - 2)) = Some i"
    "sig_task_done (tasks (taskGroup s) ! i) = [length (children s) - 2]"
    "items_upto i (children s)"
    "callbacks (effects s) = []"
    "sequence_order (dispatched (effects s))"
    "dispatched (effects s) \<noteq> []" "last (dispatched (effects s)) = i"
  using assms
  by (auto simp add: phase_asking_def Let_def list_all_take_iff list_all_drop_iff isDone_def)

lemma child_at_last2:
  "2 \<le> length cs \<Longrightarrow> child_at cs (int (length cs) - 2) = Some (cs ! (length cs - 2))"
  by (simp add: child_at_def nat_diff_distrib')

lemma asking_abort:
  assumes ask: "phase_asking i s" and alive: "\<not> cxx_deleted s"
  shows "\<exists>s'. handleQuestionResult ABORT s = Inr s'
           \<and> step_rel s s'
           \<and> phase_finalized (Suc i) s'"
  using asking_facts[OF ask] alive
  by (auto simp add: handleQuestionResult_def step_rel_def same_setup_def reports_def sequence_order_snoc Let_def child_at_last2 allCmdDone_def log_def
      phase_finalized_def list_all_take_iff list_all_drop_iff less_Suc_eq is_task_done_def
      fresh_task_def)

lemma asking_ok:
  assumes ask: "phase_asking i s" and alive: "\<not> cxx_deleted s"
  shows "\<exists>s'. handleQuestionResult OK s = Inr s'
           \<and> step_rel s s'
           \<and> phase_finalized (Suc i) s'"
  using asking_facts[OF ask] alive
  by (auto simp add: handleQuestionResult_def step_rel_def same_setup_def reports_def sequence_order_snoc Let_def child_at_last2 allCmdDone_def log_def
      phase_finalized_def list_all_take_iff list_all_drop_iff less_Suc_eq is_task_done_def
      fresh_task_def)

lemma asking_continue:
  assumes ask: "phase_asking i s" and alive: "\<not> cxx_deleted s"
    and more: "Suc i \<noteq> length (tasks (taskGroup s))"
  shows "\<exists>s'. handleQuestionResult CONTINUE s = Inr s'
           \<and> step_rel s s'
           \<and> phase_running (Suc i) s'"
  using asking_facts[OF ask] alive more
  by (auto simp add: handleQuestionResult_def step_rel_def same_setup_def reports_def sequence_order_snoc Let_def child_at_last2
      phase_running_def isDone_def runOneCmdline_next_idx
      list_all_take_iff list_all_drop_iff nth_list_update is_task_done_def fresh_task_def
      less_Suc_eq items_upto_mono)

lemma asking_retry:
  assumes ask: "phase_asking i s" and alive: "\<not> cxx_deleted s"
  shows "\<exists>s'. handleQuestionResult RETRY s = Inr s'
           \<and> step_rel s s'
           \<and> phase_running i s'"
proof -
  note f = asking_facts[OF ask]
  let ?s1 = "s\<lparr>buttonBar := None\<rparr>"
  have h: "handleQuestionResult RETRY s = runOneCmdline True ?s1"
    using f by (auto simp add: handleQuestionResult_def step_rel_def same_setup_def reports_def sequence_order_snoc Let_def child_at_last2)
  have r: "runOneCmdline True ?s1 = runOneCmdline False
       (?s1\<lparr>taskGroup := (taskGroup ?s1)\<lparr>tasks := (tasks (taskGroup ?s1))
              [i := (tasks (taskGroup ?s1) ! i)
                 \<lparr>sig_task_done := removeAll (length (children ?s1) - 2)
                     (sig_task_done (tasks (taskGroup ?s1) ! i))\<rparr>]\<rparr>,
          nbCmdDone := nbCmdDone ?s1 - 1, nbError := nbError ?s1 - 1,
          taskIdx := taskIdx ?s1 - 1\<rparr>)"
    by (rule runOneCmdline_retry) (use f in simp_all)
  show ?thesis unfolding h r using f alive
    by (auto simp add: Let_def step_rel_def same_setup_def reports_def sequence_order_snoc phase_running_def isDone_def runOneCmdline_next_idx
      list_all_take_iff list_all_drop_iff nth_list_update is_task_done_def fresh_task_def
      less_Suc_eq)
qed

lemma idle_Run:
  assumes idle: "phase_idle s" and ne: "0 < length (tasks (taskGroup s))"
  shows "\<exists>s'. handle Run s = Inr s' \<and> step_rel s s' \<and> phase_running 0 s'"
  using assms
  by (auto simp add: handle_def MgExecItemMultiCmd_run_def phase_idle_def phase_running_def
      step_rel_def same_setup_def reports_def sequence_order_snoc isDone_def runOneCmdline_next_idx fresh_task_def Let_def
      list_all_drop_iff list_all_length)

lemma idle_AbortItem:
  assumes idle: "phase_idle s" and ne: "0 < length (tasks (taskGroup s))"
  shows "\<exists>s'. handle AbortItem s = Inr s' \<and> step_rel s s' \<and> phase_finalized 0 s'"
  using assms
  by (auto simp add: handle_def MgExecItemMultiCmd_abortItem_def phase_idle_def
      phase_finalized_def step_rel_def same_setup_def reports_def sequence_order_snoc allCmdDone_def log_def fresh_task_def Let_def
      list_all_length)

lemma asking_AbortItem:
  assumes ask: "phase_asking i s" and alive: "\<not> cxx_deleted s"
  shows "\<exists>s'. handle AbortItem s = Inr s' \<and> step_rel s s' \<and> phase_finalized (Suc i) s'"
  using asking_facts[OF ask] alive
  by (auto simp add: handle_def MgExecItemMultiCmd_abortItem_def
      handleQuestionResult_def step_rel_def same_setup_def reports_def sequence_order_snoc Let_def child_at_last2 allCmdDone_def log_def
      phase_finalized_def list_all_take_iff list_all_drop_iff less_Suc_eq is_task_done_def
      fresh_task_def)

lemma finalized_AbortItem:
  assumes fin: "phase_finalized k s"
  shows "handle AbortItem s =
           Inr (s\<lparr>taskGroup := MgExecTaskGroup_abort (taskGroup s), abortRequested := False\<rparr>)"
  using assms
  by (auto simp add: handle_def MgExecItemMultiCmd_abortItem_def phase_finalized_def Let_def)

lemma finalized_Run: "phase_finalized k s \<Longrightarrow> handle Run s = Inl AssertionError"
  by (simp add: handle_def MgExecItemMultiCmd_run_def runOneCmdline_def isDone_def
      phase_finalized_def Let_def)

lemma finalized_no_started:
  assumes "phase_finalized k s" and "j < length (tasks (taskGroup s))"
  shows "task_state (tasks (taskGroup s) ! j) \<noteq> Started"
proof (cases "j < k")
  case True
  with assms have "is_task_done (tasks (taskGroup s) ! j)"
    by (simp add: phase_finalized_def Let_def list_all_take_iff)
  then show ?thesis by (auto simp add: is_task_done_def)
next
  case False
  with assms have "task_state (tasks (taskGroup s) ! j) = NotStarted"
    by (simp add: phase_finalized_def Let_def list_all_drop_iff)
  then show ?thesis by simp
qed

lemma finalized_step:
  assumes fin: "phase_finalized k s" and en: "enabled ev s" and h: "handle ev s = Inr s'"
  shows "ev = AbortItem
         \<and> s' = s\<lparr>taskGroup := MgExecTaskGroup_abort (taskGroup s), abortRequested := False\<rparr>"
proof (cases ev)
  case Run
  with finalized_Run[OF fin] h show ?thesis by simp
next
  case (TaskDone j b out)
  with en finalized_no_started[OF fin] show ?thesis by (auto simp add: enabled_def)
next
  case (UserChoice c)
  with en fin show ?thesis by (simp add: enabled_def phase_finalized_def Let_def)
next
  case AbortItem
  with finalized_AbortItem[OF fin] h show ?thesis by simp
qed

lemma finalized_preserved:
  assumes fin: "phase_finalized k s" and en: "enabled ev s" and h: "handle ev s = Inr s'"
  shows "step_rel s s' \<and> phase_finalized k s'"
  using finalized_step[OF assms] fin
  by (simp add: step_rel_def same_setup_def reports_def sequence_order_snoc phase_finalized_def Let_def)

lemma asking_no_started:
  assumes "phase_asking i s" and "j < length (tasks (taskGroup s))"
  shows "task_state (tasks (taskGroup s) ! j) \<noteq> Started"
proof -
  note f = asking_facts[OF assms(1)]
  consider "j < i" | "j = i" | "Suc i \<le> j" by linarith
  then show ?thesis
  proof cases
    case 1
    with f(12) assms(2) have "is_task_done (tasks (taskGroup s) ! j)" by blast
    then show ?thesis by (auto simp add: is_task_done_def)
  next
    case 2
    with f(11) show ?thesis by simp
  next
    case 3
    with f(13) assms(2) have "fresh_task (tasks (taskGroup s) ! j)" by blast
    then show ?thesis by (simp add: fresh_task_def)
  qed
qed

lemma idle_no_started:
  assumes "phase_idle s" and "j < length (tasks (taskGroup s))"
  shows "task_state (tasks (taskGroup s) ! j) \<noteq> Started"
  using assms by (auto simp add: phase_idle_def list_all_length fresh_task_def)

text \<open>Every enabled event of a state in one of the four phases leads to such a state.\<close>

lemma idle_step:
  assumes idle: "phase_idle s" and ne: "0 < length (tasks (taskGroup s))"
    and en: "enabled ev s" and h: "handle ev s = Inr s'"
  shows "step_rel s s' \<and> (phase_running 0 s' \<or> phase_finalized 0 s')"
proof (cases ev)
  case Run
  with idle_Run[OF idle ne] h show ?thesis by auto
next
  case (TaskDone j b out)
  with en idle_no_started[OF idle] show ?thesis by (auto simp add: enabled_def)
next
  case (UserChoice c)
  with en idle show ?thesis by (simp add: enabled_def phase_idle_def)
next
  case AbortItem
  with idle_AbortItem[OF idle ne] h show ?thesis by auto
qed

lemma running_step:
  assumes run: "phase_running i s" and alive: "\<not> cxx_deleted s"
    and en: "enabled ev s" and h: "handle ev s = Inr s'"
  shows "step_rel s s' \<and>
         (phase_running i s' \<or> phase_running (Suc i) s' \<or> phase_asking i s'
          \<or> phase_finalized (Suc i) s')"
proof (cases ev)
  case Run
  with en run show ?thesis by (simp add: enabled_def phase_running_def Let_def)
next
  case (TaskDone j b out)
  with running_TaskDone[OF run alive, of j b out] en h show ?thesis by auto
next
  case (UserChoice c)
  with en run show ?thesis by (simp add: enabled_def phase_running_def Let_def)
next
  case AbortItem
  with running_AbortItem[OF run alive] h show ?thesis by auto
qed

lemma asking_step:
  assumes ask: "phase_asking i s" and alive: "\<not> cxx_deleted s"
    and en: "enabled ev s" and h: "handle ev s = Inr s'"
  shows "step_rel s s' \<and>
         (phase_running i s' \<or> phase_running (Suc i) s' \<or> phase_finalized (Suc i) s')"
proof (cases ev)
  case Run
  with en asking_facts(1)[OF ask] show ?thesis by (simp add: enabled_def)
next
  case (TaskDone j b out)
  with en asking_no_started[OF ask] show ?thesis by (auto simp add: enabled_def)
next
  case (UserChoice c)
  note f = asking_facts[OF ask]
  from UserChoice en f(9) have c: "c = ABORT \<or> c = RETRY
      \<or> (c = OK \<and> Suc i = length (tasks (taskGroup s)))
      \<or> (c = CONTINUE \<and> Suc i \<noteq> length (tasks (taskGroup s)))"
    by (auto simp add: enabled_def split: if_splits)
  from UserChoice h have h': "handleQuestionResult c s = Inr s'" by (simp add: handle_def)
  from c show ?thesis
  proof (elim disjE conjE)
    assume "c = ABORT"
    with asking_abort[OF ask alive] h' show ?thesis by auto
  next
    assume "c = RETRY"
    with asking_retry[OF ask alive] h' show ?thesis by auto
  next
    assume "c = OK"
    with asking_ok[OF ask alive] h' show ?thesis by auto
  next
    assume "c = CONTINUE" "Suc i \<noteq> length (tasks (taskGroup s))"
    with asking_continue[OF ask alive] h' show ?thesis by auto
  qed
next
  case AbortItem
  with asking_AbortItem[OF ask alive] h show ?thesis by auto
qed

lemma in_phase_step:
  assumes ph: "in_phase s" and alive: "\<not> cxx_deleted s"
    and ne: "0 < length (tasks (taskGroup s))"
    and en: "enabled ev s" and h: "handle ev s = Inr s'"
  shows "step_rel s s' \<and> in_phase s'"
proof -
  from ph consider (idle) "phase_idle s" | (running) i where "phase_running i s"
    | (asking) i where "phase_asking i s" | (finalized) k where "phase_finalized k s"
    unfolding in_phase_def by blast
  then show ?thesis
  proof cases
    case idle
    from idle_step[OF this ne en h] show ?thesis unfolding in_phase_def by blast
  next
    case running
    from running_step[OF this alive en h] show ?thesis unfolding in_phase_def by blast
  next
    case asking
    from asking_step[OF this alive en h] show ?thesis unfolding in_phase_def by blast
  next
    case finalized
    from finalized_preserved[OF this en h] show ?thesis unfolding in_phase_def by blast
  qed
qed

text \<open>
  An enabled event never raises, but for \<^verbatim>\<open>run()\<close> on a runner that \<^verbatim>\<open>abortItem()\<close> finalized
  before its start, where the assertion of \<^verbatim>\<open>runOneCmdline\<close> fails.
\<close>

lemma enabled_event_handled:
  assumes ph: "in_phase s" and alive: "\<not> cxx_deleted s"
    and ne: "0 < length (tasks (taskGroup s))" and en: "enabled ev s"
  shows "(\<exists>s'. handle ev s = Inr s')
         \<or> (ev = Run \<and> (\<exists>k. phase_finalized k s) \<and> handle ev s = Inl AssertionError)"
  using ph unfolding in_phase_def
proof (elim disjE exE)
  assume idle: "phase_idle s"
  show ?thesis
  proof (cases ev)
    case Run
    with idle_Run[OF idle ne] show ?thesis by blast
  next
    case (TaskDone j b out)
    with en idle_no_started[OF idle] show ?thesis by (auto simp add: enabled_def)
  next
    case (UserChoice c)
    with en idle show ?thesis by (simp add: enabled_def phase_idle_def)
  next
    case AbortItem
    with idle_AbortItem[OF idle ne] show ?thesis by blast
  qed
next
  fix i assume run: "phase_running i s"
  show ?thesis
  proof (cases ev)
    case Run
    with en run show ?thesis by (simp add: enabled_def phase_running_def Let_def)
  next
    case (TaskDone j b out)
    with running_TaskDone[OF run alive, of j b out] en show ?thesis by blast
  next
    case (UserChoice c)
    with en run show ?thesis by (simp add: enabled_def phase_running_def Let_def)
  next
    case AbortItem
    with running_AbortItem[OF run alive] show ?thesis by blast
  qed
next
  fix i assume ask: "phase_asking i s"
  show ?thesis
  proof (cases ev)
    case Run
    with en asking_facts(1)[OF ask] show ?thesis by (simp add: enabled_def)
  next
    case (TaskDone j b out)
    with en asking_no_started[OF ask] show ?thesis by (auto simp add: enabled_def)
  next
    case (UserChoice c)
    note f = asking_facts[OF ask]
    from UserChoice en f(9) have c: "c = ABORT \<or> c = RETRY
        \<or> (c = OK \<and> Suc i = length (tasks (taskGroup s)))
        \<or> (c = CONTINUE \<and> Suc i \<noteq> length (tasks (taskGroup s)))"
      by (auto simp add: enabled_def split: if_splits)
    have "\<exists>s'. handleQuestionResult c s = Inr s'"
      using c asking_abort[OF ask alive] asking_retry[OF ask alive] asking_ok[OF ask alive]
        asking_continue[OF ask alive] by blast
    with UserChoice show ?thesis by (simp add: handle_def)
  next
    case AbortItem
    with asking_AbortItem[OF ask alive] show ?thesis by blast
  qed
next
  fix k assume fin: "phase_finalized k s"
  show ?thesis
  proof (cases ev)
    case Run
    with finalized_Run[OF fin] fin show ?thesis by blast
  next
    case (TaskDone j b out)
    with en finalized_no_started[OF fin] show ?thesis by (auto simp add: enabled_def)
  next
    case (UserChoice c)
    with en fin show ?thesis by (simp add: enabled_def phase_finalized_def Let_def)
  next
    case AbortItem
    with finalized_AbortItem[OF fin] show ?thesis by blast
  qed
qed

lemma exec_in_phase:
  assumes "exec evs s = Some s'" and "in_phase s" and "\<not> cxx_deleted s"
    and "0 < length (tasks (taskGroup s))"
  shows "same_setup s s' \<and> in_phase s'"
  using assms
proof (induction evs arbitrary: s)
  case Nil
  then show ?case by (simp add: same_setup_def)
next
  case (Cons ev evs)
  from Cons.prems(1) obtain s1 where en: "enabled ev s" and h: "handle ev s = Inr s1"
    and rest: "exec evs s1 = Some s'"
    by (auto split: if_splits sum.splits)
  from in_phase_step[OF Cons.prems(2,3,4) en h] have s1: "same_setup s s1" "in_phase s1"
    by (simp_all add: step_rel_def)
  from s1(1) Cons.prems(3,4) have "\<not> cxx_deleted s1" "0 < length (tasks (taskGroup s1))"
    by (simp_all add: same_setup_def)
  from Cons.IH[OF rest s1(2) this] s1(1) show ?case by (simp add: same_setup_def)
qed

lemma init_idle:
  assumes "fresh_group g" and "MgExecItemMultiCmd_init g ask = Inr s0"
  shows "phase_idle s0 \<and> \<not> cxx_deleted s0 \<and> 0 < length (tasks (taskGroup s0))
         \<and> askQuestionUponFailure s0 = ask \<and> taskGroup s0 = g"
  using assms
  by (auto simp add: MgExecItemMultiCmd_init_def fresh_group_def phase_idle_def split: if_splits)

lemma reachable_in_phase:
  assumes "fresh_group g" and "MgExecItemMultiCmd_init g ask = Inr s0"
    and "exec evs s0 = Some s"
  shows "in_phase s \<and> \<not> cxx_deleted s \<and> askQuestionUponFailure s = ask
         \<and> length (tasks (taskGroup s)) = length (tasks g)"
proof -
  from init_idle[OF assms(1,2)] have i: "phase_idle s0" "\<not> cxx_deleted s0"
    "0 < length (tasks (taskGroup s0))" "askQuestionUponFailure s0 = ask" "taskGroup s0 = g"
    by auto
  from i(1) have "in_phase s0" by (simp add: in_phase_def)
  from exec_in_phase[OF assms(3) this i(2,3)] i show ?thesis by (simp add: same_setup_def)
qed

lemma asking_retry_exact:
  assumes ask: "phase_asking i s"
  shows "handleQuestionResult RETRY s =
     Inr (s\<lparr>buttonBar := None,
            taskGroup := (taskGroup s)\<lparr>tasks := (tasks (taskGroup s))
              [i := (tasks (taskGroup s) ! i)
                 \<lparr>task_state := Started, sig_task_done := [length (children s)]\<rparr>]\<rparr>,
            nbCmdDone := nbCmdDone s - 1, nbError := nbError s - 1,
            children := children s @ [OneCmd \<lparr>task = i, item_abortRequested = False\<rparr>],
            effects := effects s @ [OfTask i DoRun]\<rparr>)"
proof -
  note f = asking_facts[OF ask]
  let ?s1 = "s\<lparr>buttonBar := None\<rparr>"
  have h: "handleQuestionResult RETRY s = runOneCmdline True ?s1"
    using f by (auto simp add: handleQuestionResult_def Let_def child_at_last2)
  have r: "runOneCmdline True ?s1 = runOneCmdline False
       (?s1\<lparr>taskGroup := (taskGroup ?s1)\<lparr>tasks := (tasks (taskGroup ?s1))
              [i := (tasks (taskGroup ?s1) ! i)
                 \<lparr>sig_task_done := removeAll (length (children ?s1) - 2)
                     (sig_task_done (tasks (taskGroup ?s1) ! i))\<rparr>]\<rparr>,
          nbCmdDone := nbCmdDone ?s1 - 1, nbError := nbError ?s1 - 1,
          taskIdx := taskIdx ?s1 - 1\<rparr>)"
    by (rule runOneCmdline_retry) (use f in simp_all)
  show ?thesis unfolding h r using f
    by (auto simp add: Let_def isDone_def runOneCmdline_next_idx
        intro!: MgExecItemMultiCmd.equality MgExecTaskGroup.equality MgExecTask.equality
          arg_cong2[where f="list_update _"])
qed

lemma running_failure_noask_exact:
  assumes run: "phase_running i s" and alive: "\<not> cxx_deleted s"
    and noask: "\<not> askQuestionUponFailure s"
    and unmasked: "\<not> ignore_failure (tasks (taskGroup s) ! i)"
  shows "handle (TaskDone i False out) s =
     Inr (s\<lparr>taskGroup := (taskGroup s)\<lparr>tasks := (tasks (taskGroup s))
              [i := (tasks (taskGroup s) ! i)\<lparr>task_state := Errored\<rparr>]\<rparr>,
            nbCmdDone := int (length (tasks (taskGroup s))), nbError := 1,
            effects := effects s @
              [OfTask i (SigTaskDone False out), CbExecDone False, RepoRefresh]\<rparr>)"
proof -
  from run have f: "i < length (tasks (taskGroup s))"
    "sig_task_done (tasks (taskGroup s) ! i) = [length (children s) - 1]"
    "\<not> askQuestionUponFailure s \<longrightarrow> nbError s = 0"
    by (simp_all add: phase_running_def Let_def)
  note h = handle_TaskDone_single_slot[OF f(1) alive f(2), of False out]
  show ?thesis unfolding h using f(3) noask unmasked alive
    by (auto simp add: slotOneCmdDone_def Let_def allCmdDone_def log_def isDone_def
        intro!: MgExecItemMultiCmd.equality)
qed

lemma in_phase_shape:
  assumes "in_phase s"
  shows "\<exists>k. (\<forall>j. j < k \<and> j < length (tasks (taskGroup s)) \<longrightarrow>
                  is_task_done (tasks (taskGroup s) ! j))
           \<and> (\<forall>j. k < j \<and> j < length (tasks (taskGroup s)) \<longrightarrow>
                  task_state (tasks (taskGroup s) ! j) = NotStarted)"
  using assms unfolding in_phase_def
proof (elim disjE exE)
  assume "phase_idle s"
  then have "\<forall>j. 0 < j \<and> j < length (tasks (taskGroup s)) \<longrightarrow>
                  task_state (tasks (taskGroup s) ! j) = NotStarted"
    by (simp add: phase_idle_def list_all_length fresh_task_def)
  then show ?thesis by (intro exI[of _ 0]) simp
next
  fix i assume "phase_running i s"
  then show ?thesis
    by (intro exI[of _ i])
       (simp add: phase_running_def Let_def list_all_take_iff list_all_drop_iff fresh_task_def)
next
  fix i assume "phase_asking i s"
  then show ?thesis
    by (intro exI[of _ i])
       (simp add: phase_asking_def Let_def list_all_take_iff list_all_drop_iff fresh_task_def)
next
  fix k assume "phase_finalized k s"
  then show ?thesis
    by (intro exI[of _ k])
       (simp add: phase_finalized_def Let_def list_all_take_iff list_all_drop_iff)
qed

lemma run_from_in_phase:
  assumes "fresh_group g" and "run_from g ask evs = Some s"
  shows "in_phase s \<and> \<not> cxx_deleted s \<and> askQuestionUponFailure s = ask
         \<and> length (tasks (taskGroup s)) = length (tasks g)"
proof -
  from assms(2) obtain s0 where "MgExecItemMultiCmd_init g ask = Inr s0" "exec evs s0 = Some s"
    by (auto simp add: run_from_def split: sum.splits)
  from reachable_in_phase[OF assms(1) this] show ?thesis .
qed

lemma finalized_exec:
  assumes "exec evs s = Some s'" and "phase_finalized k s"
  shows "tasks (taskGroup s') = tasks (taskGroup s) \<and> effects s' = effects s
         \<and> buttonBar s' = None"
  using assms
proof (induction evs arbitrary: s)
  case Nil
  then show ?case by (simp add: phase_finalized_def Let_def)
next
  case (Cons ev evs)
  from Cons.prems(1) obtain s1 where en: "enabled ev s" and h: "handle ev s = Inr s1"
    and rest: "exec evs s1 = Some s'"
    by (auto split: if_splits sum.splits)
  from finalized_step[OF Cons.prems(2) en h]
  have eq: "s1 = s\<lparr>taskGroup := MgExecTaskGroup_abort (taskGroup s), abortRequested := False\<rparr>"
    by simp
  from finalized_preserved[OF Cons.prems(2) en h] have "phase_finalized k s1" by simp
  from Cons.IH[OF rest this] show ?case by (simp add: eq)
qed

lemma pending_question_asking:
  assumes "in_phase s" and "buttonBar s \<noteq> None"
  shows "\<exists>i. phase_asking i s"
  using assms
  by (auto simp add: in_phase_def phase_idle_def phase_running_def phase_finalized_def Let_def)

lemma running_success_counted_once:
  assumes run: "phase_running i s" and alive: "\<not> cxx_deleted s"
    and na: "\<not> abortRequested s"
  shows "\<exists>s'. handle (TaskDone i True out) s = Inr s' \<and> nbCmdDone s' = int i + 1
           \<and> nbError s' = nbError s"
proof -
  from run have f: "i < length (tasks (taskGroup s))"
    "sig_task_done (tasks (taskGroup s) ! i) = [length (children s) - 1]"
    "taskIdx s = int i" "nbCmdDone s = int i"
    "\<forall>j. Suc i \<le> j \<and> j < length (tasks (taskGroup s)) \<longrightarrow> fresh_task (tasks (taskGroup s) ! j)"
    by (simp_all add: phase_running_def Let_def list_all_drop_iff)
  note h = handle_TaskDone_single_slot[OF f(1) alive f(2), of True out]
  show ?thesis
  proof (cases "Suc i = length (tasks (taskGroup s))")
    case True
    then show ?thesis unfolding h using f na alive
      by (auto simp add: slotOneCmdDone_def Let_def allCmdDone_def log_def isDone_def)
  next
    case False
    with f(1) have "Suc i < length (tasks (taskGroup s))" by simp
    with False show ?thesis unfolding h using f na alive
      by (auto simp add: slotOneCmdDone_def Let_def isDone_def runOneCmdline_next_idx
          fresh_task_def)
  qed
qed

lemma in_phase_callbacks: "in_phase s \<Longrightarrow> length (callbacks (effects s)) \<le> 1"
  by (auto simp add: in_phase_def phase_idle_def phase_running_def phase_asking_def
      phase_finalized_def Let_def)

lemma reachable_step:
  assumes "fresh_group g" and "run_from g ask evs = Some s"
    and "enabled ev s" and "handle ev s = Inr s1"
  shows "reports s s1 \<and> in_phase s1"
proof -
  from run_from_in_phase[OF assms(1,2)] have "in_phase s" "\<not> cxx_deleted s"
    "length (tasks (taskGroup s)) = length (tasks g)" by simp_all
  moreover from assms(2) have "0 < length (tasks g)"
    by (auto simp add: run_from_def MgExecItemMultiCmd_init_def split: if_splits)
  ultimately show ?thesis using in_phase_step[OF _ _ _ assms(3,4)]
    by (simp add: step_rel_def)
qed

lemma in_phase_sequence_order: "in_phase s \<Longrightarrow> sequence_order (dispatched (effects s))"
  by (auto simp add: in_phase_def phase_idle_def phase_running_def phase_asking_def
      phase_finalized_def Let_def)

lemmas eval_defs = run_from_def MgExecItemMultiCmd_init_def
        enabled_def handle_def MgExecItemMultiCmd_run_def runOneCmdline_def isDone_def
        py_index_def child_at_def Let_def set_task_def MgExecItemOneCmd_run_def MgExecTask_run_def log_def
        task_done_def slotTaskDone_def slotOneCmdDone_def allCmdDone_def
        askQuestionAfterCmdFailed_def handleQuestionResult_def fresh_task_def

section \<open>The claims of the specification\<close>

text \<open>
  \<^bold>\<open>C1.\<close> A failing completion of a task with \<open>ignore_failure\<close> leaves the task in state
  \<open>Errored\<close> (not successful, errored) and emits \<^verbatim>\<open>sig_task_done\<close> with success \<open>True\<close> and
  the output as given; without \<open>ignore_failure\<close> the emitted success is the outcome
  passed to \<^verbatim>\<open>task_done\<close>.
\<close>

theorem task_done_ignore_failure:
  "(ignore_failure self \<longrightarrow>
      task_done False out self = (self\<lparr>task_state := Errored\<rparr>, [SigTaskDone True out])
      \<and> \<not> is_task_successful (fst (task_done False out self))
      \<and> is_task_errored (fst (task_done False out self)))
   \<and> (\<not> ignore_failure self \<longrightarrow>
      task_done success out self =
        (self\<lparr>task_state := (if success then Successful else Errored)\<rparr>,
         [SigTaskDone success out]))"
  by (simp add: task_done_def is_task_successful_def is_task_errored_def)

theorem task_done_ignore_failure_witness:
  "ignore_failure (MgExecTask_init True)
   \<and> task_done False ''fatal: not a git repository'' (MgExecTask_init True) =
       (\<lparr>task_state = Errored, ignore_failure = True, sig_task_done = []\<rparr>,
        [SigTaskDone True ''fatal: not a git repository''])
   \<and> \<not> is_task_successful (fst (task_done False ''fatal: not a git repository'' (MgExecTask_init True)))
   \<and> is_task_errored (fst (task_done False ''fatal: not a git repository'' (MgExecTask_init True)))
   \<and> \<not> ignore_failure (MgExecTask_init False)
   \<and> task_done False ''fatal: not a git repository'' (MgExecTask_init False) =
       (\<lparr>task_state = Errored, ignore_failure = False, sig_task_done = []\<rparr>,
        [SigTaskDone False ''fatal: not a git repository''])"
  using task_done_ignore_failure
          [where self = "MgExecTask_init True" and out = "''fatal: not a git repository''"]
    task_done_ignore_failure
          [where self = "MgExecTask_init False" and out = "''fatal: not a git repository''"
             and success = False]
  by (auto simp add: MgExecTask_init_def)

text \<open>
  \<^bold>\<open>C2.\<close> \<^verbatim>\<open>allCmdDone\<close> sets \<open>nbCmdDone\<close> to the number of tasks and calls the completion
  callback once, with \<open>nbError = 0 \<and> \<not> abortRequested\<close> (the runner's abort flag), then
  refreshes the repository. In a run from a freshly built group the callback is called at
  most once, and the step that calls it ends in a state where \<open>nbCmdDone\<close> is the number of
  tasks and the argument is \<open>nbError = 0 \<and> \<not> abortRequested\<close>, which there is the same as
  \<open>nbError = 0\<close> and the group not aborted. For a group of two tasks where the first fails unmasked, the
  user chooses Continue and the second succeeds, the run ends with two completions counted,
  one error, and the callback called once with \<open>False\<close>.
\<close>

theorem allCmdDone_reports_overall_success:
  "nbCmdDone (allCmdDone self) = int (length (tasks (taskGroup self)))
   \<and> effects (allCmdDone self) =
       effects self @ [CbExecDone (nbError self = 0 \<and> \<not> abortRequested self), RepoRefresh]
   \<and> (fresh_group g \<and> run_from g ask evs = Some s \<and> enabled ev s \<and> handle ev s = Inr s1 \<longrightarrow>
        length (callbacks (effects s1)) \<le> 1
        \<and> (callbacks (effects s1) = callbacks (effects s)
           \<or> callbacks (effects s) = []
             \<and> callbacks (effects s1) = [nbError s1 = 0 \<and> \<not> abortRequested s1]
             \<and> callbacks (effects s1) = [nbError s1 = 0 \<and> \<not> aborted (taskGroup s1)]
             \<and> nbCmdDone s1 = int (length (tasks (taskGroup s1)))))
   \<and> (fresh_task t1 \<and> \<not> ignore_failure t1 \<and> fresh_task t2 \<longrightarrow>
        map_option (\<lambda>s. (nbCmdDone s, nbError s, callbacks (effects s),
                          map task_state (tasks (taskGroup s))))
          (run_from \<lparr>tasks = [t1, t2], aborted = False, repo_fullpath = path\<rparr> True
             [Run, TaskDone 0 False out1, UserChoice CONTINUE, TaskDone 1 True out2])
        = Some (2, 1, [False], [Errored, Successful]))"
proof (intro conjI impI)
  show "nbCmdDone (allCmdDone self) = int (length (tasks (taskGroup self)))"
    by (simp add: allCmdDone_def log_def)
  show "effects (allCmdDone self) =
       effects self @ [CbExecDone (nbError self = 0 \<and> \<not> abortRequested self), RepoRefresh]"
    by (simp add: allCmdDone_def log_def)
next
  assume a: "fresh_group g \<and> run_from g ask evs = Some s \<and> enabled ev s \<and> handle ev s = Inr s1"
  with reachable_step[of g ask evs s ev s1] have r: "reports s s1" and p: "in_phase s1"
    by simp_all
  from in_phase_callbacks[OF p] show "length (callbacks (effects s1)) \<le> 1" .
  from r show "callbacks (effects s1) = callbacks (effects s)
           \<or> callbacks (effects s) = []
             \<and> callbacks (effects s1) = [nbError s1 = 0 \<and> \<not> abortRequested s1]
             \<and> callbacks (effects s1) = [nbError s1 = 0 \<and> \<not> aborted (taskGroup s1)]
             \<and> nbCmdDone s1 = int (length (tasks (taskGroup s1)))"
    unfolding reports_def .
next
  assume "fresh_task t1 \<and> \<not> ignore_failure t1 \<and> fresh_task t2"
  then show "map_option (\<lambda>s. (nbCmdDone s, nbError s, callbacks (effects s),
                          map task_state (tasks (taskGroup s))))
          (run_from \<lparr>tasks = [t1, t2], aborted = False, repo_fullpath = path\<rparr> True
             [Run, TaskDone 0 False out1, UserChoice CONTINUE, TaskDone 1 True out2])
        = Some (2, 1, [False], [Errored, Successful])"
    by (simp add: eval_defs)
qed

theorem allCmdDone_reports_overall_success_witness:
  "fresh_group \<lparr>tasks = [MgExecTask_init False], aborted = False, repo_fullpath = ''/repo''\<rparr>
   \<and> map_option (\<lambda>s. (enabled (TaskDone 0 True ''ok'') s,
                         case handle (TaskDone 0 True ''ok'') s of
                           Inl e \<Rightarrow> None
                         | Inr s1 \<Rightarrow> Some (callbacks (effects s1), nbError s1, aborted (taskGroup s1))))
        (run_from \<lparr>tasks = [MgExecTask_init False], aborted = False, repo_fullpath = ''/repo''\<rparr>
           True [Run])
      = Some (True, Some ([True], 0, False))
   \<and> fresh_task (MgExecTask_init False) \<and> \<not> ignore_failure (MgExecTask_init False)
   \<and> map_option (\<lambda>s. (nbCmdDone s, nbError s, callbacks (effects s),
                          map task_state (tasks (taskGroup s))))
          (run_from \<lparr>tasks = [MgExecTask_init False, MgExecTask_init False], aborted = False,
                      repo_fullpath = ''/repo''\<rparr> True
             [Run, TaskDone 0 False ''error: pathspec'', UserChoice CONTINUE, TaskDone 1 True []])
        = Some (2, 1, [False], [Errored, Successful])"
proof -
  let ?g = "\<lparr>tasks = [MgExecTask_init False], aborted = False, repo_fullpath = ''/repo''\<rparr>"
  have fg: "fresh_group ?g" by code_simp
  have st: "map_option (\<lambda>s. (enabled (TaskDone 0 True ''ok'') s,
                         case handle (TaskDone 0 True ''ok'') s of
                           Inl e \<Rightarrow> None
                         | Inr s1 \<Rightarrow> Some (callbacks (effects s1), nbError s1, aborted (taskGroup s1))))
        (run_from ?g True [Run]) = Some (True, Some ([True], 0, False))"
    by code_simp
  then obtain s where s0: "run_from ?g True [Run] = Some s"
    "enabled (TaskDone 0 True ''ok'') s"
    and c: "(case handle (TaskDone 0 True ''ok'') s of
               Inl e \<Rightarrow> None
             | Inr s1 \<Rightarrow> Some (callbacks (effects s1), nbError s1, aborted (taskGroup s1)))
            = Some ([True], 0, False)"
    by auto
  from c obtain s1 where "handle (TaskDone 0 True ''ok'') s = Inr s1"
    by (cases "handle (TaskDone 0 True ''ok'') s") auto
  with s0 have s: "run_from ?g True [Run] = Some s"
    "enabled (TaskDone 0 True ''ok'') s" "handle (TaskDone 0 True ''ok'') s = Inr s1"
    by simp_all
  have h: "fresh_task (MgExecTask_init False)" "\<not> ignore_failure (MgExecTask_init False)"
    by (simp_all add: fresh_task_def MgExecTask_init_def)
  note t = allCmdDone_reports_overall_success
         [where g = ?g and ask = True and evs = "[Run]" and s = s
            and ev = "TaskDone 0 True ''ok''" and ?s1.0 = s1
            and ?t1.0 = "MgExecTask_init False" and ?t2.0 = "MgExecTask_init False"
            and path = "''/repo''" and ?out1.0 = "''error: pathspec''" and ?out2.0 = "[]"]
  from t fg s have "length (callbacks (effects s1)) \<le> 1" by blast
  moreover from t h have "map_option (\<lambda>s. (nbCmdDone s, nbError s, callbacks (effects s),
                          map task_state (tasks (taskGroup s))))
          (run_from \<lparr>tasks = [MgExecTask_init False, MgExecTask_init False], aborted = False,
                      repo_fullpath = ''/repo''\<rparr> True
             [Run, TaskDone 0 False ''error: pathspec'', UserChoice CONTINUE, TaskDone 1 True []])
        = Some (2, 1, [False], [Errored, Successful])" by blast
  ultimately show ?thesis using fg st h by blast
qed

text \<open>
  \<^bold>\<open>C3.\<close> In every state that a runner reaches from a freshly built group (started once by
  \<^verbatim>\<open>run()\<close>, then driven by completions of the running task, answers to the pending
  question and \<^verbatim>\<open>abortItem()\<close>): if the task at position \<open>i\<close> is \<open>Started\<close>, every task
  before \<open>i\<close> is done and every task behind \<open>i\<close> is \<open>NotStarted\<close>; whenever task
  \<open>n + 1\<close> has been started, task \<open>n\<close> is done; and the tasks were dispatched in sequence
  order: task 0 first, then each time the same task again (a retry) or the next one.
\<close>

theorem started_task_invariant:
  assumes "fresh_group g" and "run_from g ask evs = Some s"
  shows "(\<forall>i. i < length (tasks (taskGroup s)) \<and> task_state (tasks (taskGroup s) ! i) = Started
            \<longrightarrow> (\<forall>j. j < i \<longrightarrow> is_task_done (tasks (taskGroup s) ! j))
              \<and> (\<forall>j. i < j \<and> j < length (tasks (taskGroup s))
                     \<longrightarrow> task_state (tasks (taskGroup s) ! j) = NotStarted))
       \<and> (\<forall>n. Suc n < length (tasks (taskGroup s))
                \<and> is_task_started (tasks (taskGroup s) ! Suc n)
            \<longrightarrow> is_task_done (tasks (taskGroup s) ! n))
       \<and> sequence_order (dispatched (effects s))"
proof -
  let ?ts = "tasks (taskGroup s)"
  from run_from_in_phase[OF assms] have "in_phase s" by simp
  from in_phase_shape[OF this] obtain k where
    d: "\<And>j. j < k \<Longrightarrow> j < length ?ts \<Longrightarrow> is_task_done (?ts ! j)"
    and n: "\<And>j. k < j \<Longrightarrow> j < length ?ts \<Longrightarrow> task_state (?ts ! j) = NotStarted"
    by blast
  have one: "(\<forall>j. j < i \<longrightarrow> is_task_done (?ts ! j))
              \<and> (\<forall>j. i < j \<and> j < length ?ts \<longrightarrow> task_state (?ts ! j) = NotStarted)"
    if "i < length ?ts" and "task_state (?ts ! i) = Started" for i
  proof -
    have "\<not> i < k" using d[of i] that by (auto simp add: is_task_done_def)
    moreover have "\<not> k < i" using n[of i] that by auto
    ultimately have "i = k" by simp
    with d n that(1) show ?thesis by auto
  qed
  have two: "is_task_done (?ts ! m)"
    if "Suc m < length ?ts" and "is_task_started (?ts ! Suc m)" for m
  proof -
    have "\<not> k < Suc m" using n[of "Suc m"] that by (auto simp add: is_task_started_def)
    then have "m < k" by simp
    with d[of m] that(1) show ?thesis by simp
  qed
  from one two in_phase_sequence_order[OF \<open>in_phase s\<close>] show ?thesis by blast
qed

theorem started_task_invariant_witness:
  "fresh_group \<lparr>tasks = [MgExecTask_init False, MgExecTask_init False], aborted = False,
                 repo_fullpath = ''/repo''\<rparr>
   \<and> map_option (\<lambda>s. (length (tasks (taskGroup s)), map task_state (tasks (taskGroup s))))
        (run_from \<lparr>tasks = [MgExecTask_init False, MgExecTask_init False], aborted = False,
                    repo_fullpath = ''/repo''\<rparr> True [Run, TaskDone 0 True ''ok''])
      = Some (2, [Successful, Started])
   \<and> (\<exists>s. run_from \<lparr>tasks = [MgExecTask_init False, MgExecTask_init False], aborted = False,
                    repo_fullpath = ''/repo''\<rparr> True [Run, TaskDone 0 True ''ok''] = Some s
         \<and> task_state (tasks (taskGroup s) ! 1) = Started
         \<and> is_task_done (tasks (taskGroup s) ! 0)
         \<and> sequence_order (dispatched (effects s)))"
proof -
  let ?g = "\<lparr>tasks = [MgExecTask_init False, MgExecTask_init False], aborted = False,
                 repo_fullpath = ''/repo''\<rparr>"
  have fg: "fresh_group ?g" by code_simp
  have st: "map_option (\<lambda>s. (length (tasks (taskGroup s)), map task_state (tasks (taskGroup s))))
        (run_from ?g True [Run, TaskDone 0 True ''ok'']) = Some (2, [Successful, Started])"
    by code_simp
  have "map_option (\<lambda>s. (length (tasks (taskGroup s)), task_state (tasks (taskGroup s) ! 1)))
        (run_from ?g True [Run, TaskDone 0 True ''ok'']) = Some (2, Started)"
    by code_simp
  then obtain s where s: "run_from ?g True [Run, TaskDone 0 True ''ok''] = Some s"
    and len: "length (tasks (taskGroup s)) = 2"
    and h: "task_state (tasks (taskGroup s) ! 1) = Started" by auto
  from started_task_invariant[OF fg s] len h
  have "is_task_done (tasks (taskGroup s) ! 0)" "sequence_order (dispatched (effects s))"
    by (auto simp add: is_task_started_def)
  with s h fg st show ?thesis by blast
qed

text \<open>
  \<^bold>\<open>C4.\<close> \<^verbatim>\<open>run()\<close> on a task in state \<open>Started\<close> leaves the task as it is and does not call
  \<^verbatim>\<open>_do_run\<close>; on a task in state \<open>Successful\<close> or \<open>Errored\<close> it does what it does on the
  same task reset to \<open>NotStarted\<close>: the task becomes \<open>Started\<close> and \<^verbatim>\<open>_do_run\<close> is called
  once.
\<close>

theorem run_rejected_when_started_restarts_when_finished:
  "(task_state self = Started \<longrightarrow>
      MgExecTask_run self = (self, [LogError]) \<and> DoRun \<notin> set (snd (MgExecTask_run self)))
   \<and> (task_state self \<in> {Successful, Errored} \<longrightarrow>
      MgExecTask_run self = MgExecTask_run (self\<lparr>task_state := NotStarted\<rparr>)
      \<and> MgExecTask_run self = (self\<lparr>task_state := Started\<rparr>, [DoRun]))"
  by (auto simp add: MgExecTask_run_def)

theorem run_rejected_when_started_restarts_when_finished_witness:
  "task_state (fst (MgExecTask_run (MgExecTask_init False))) = Started
   \<and> MgExecTask_run (fst (MgExecTask_run (MgExecTask_init False))) =
       (\<lparr>task_state = Started, ignore_failure = False, sig_task_done = []\<rparr>, [LogError])
   \<and> task_state (fst (task_done False [] (MgExecTask_init False))) \<in> {Successful, Errored}
   \<and> MgExecTask_run (fst (task_done False [] (MgExecTask_init False))) =
       (\<lparr>task_state = Started, ignore_failure = False, sig_task_done = []\<rparr>, [DoRun])"
  using run_rejected_when_started_restarts_when_finished
          [of "fst (MgExecTask_run (MgExecTask_init False))"]
    run_rejected_when_started_restarts_when_finished
          [of "fst (task_done False [] (MgExecTask_init False))"]
  by (simp add: MgExecTask_init_def MgExecTask_run_def task_done_def)

text \<open>
  \<^bold>\<open>C5.\<close> The claim that \<^verbatim>\<open>abort()\<close> of every task in state \<open>NotStarted\<close> emits success
  \<open>False\<close> fails for a task with \<open>ignore_failure\<close>: \<^verbatim>\<open>abort()\<close> reports through
  \<^verbatim>\<open>task_done\<close>, which masks the failure, so the emitted success is \<open>True\<close>.
\<close>

theorem abort_not_started_ignore_failure_counterexample:
  "task_state (MgExecTask_init True) = NotStarted
   \<and> MgExecTask_abort (MgExecTask_init True) =
       (\<lparr>task_state = Errored, ignore_failure = True, sig_task_done = []\<rparr>,
        [SigTaskDone True ''Aborted before started.''])
   \<and> snd (MgExecTask_abort (MgExecTask_init True)) \<noteq> [SigTaskDone False ''Aborted before started.'']"
  by (simp add: MgExecTask_init_def MgExecTask_abort_def task_done_def)

text \<open>
  \<^bold>\<open>C5, as amended.\<close> \<^verbatim>\<open>abort()\<close> of a task in state \<open>NotStarted\<close> moves it to \<open>Errored\<close> and
  emits one completion with the message \<^verbatim>\<open>Aborted before started.\<close> whose success is the
  task's \<open>ignore_failure\<close> flag (\<open>False\<close> unless the failure is masked); \<^verbatim>\<open>abort()\<close> of a
  task that is \<open>Successful\<close> or \<open>Errored\<close> changes nothing and emits nothing.
\<close>

theorem abort_not_started_or_finished:
  "(task_state self = NotStarted \<longrightarrow>
      MgExecTask_abort self =
        (self\<lparr>task_state := Errored\<rparr>,
         [SigTaskDone (ignore_failure self) ''Aborted before started.'']))
   \<and> (task_state self \<in> {Successful, Errored} \<longrightarrow> MgExecTask_abort self = (self, []))"
  by (auto simp add: MgExecTask_abort_def task_done_def)

theorem abort_not_started_or_finished_witness:
  "task_state (MgExecTask_init False) = NotStarted
   \<and> MgExecTask_abort (MgExecTask_init False) =
       (\<lparr>task_state = Errored, ignore_failure = False, sig_task_done = []\<rparr>,
        [SigTaskDone False ''Aborted before started.''])
   \<and> task_state (fst (task_done True [] (MgExecTask_init False))) \<in> {Successful, Errored}
   \<and> MgExecTask_abort (fst (task_done True [] (MgExecTask_init False))) =
       (\<lparr>task_state = Successful, ignore_failure = False, sig_task_done = []\<rparr>, [])"
  using abort_not_started_or_finished[of "MgExecTask_init False"]
    abort_not_started_or_finished[of "fst (task_done True [] (MgExecTask_init False))"]
  by (simp add: MgExecTask_init_def task_done_def)

text \<open>
  \<^bold>\<open>C6.\<close> Whenever a question is pending in a reachable state, the task at \<open>taskIdx\<close> has
  failed, and the answer Retry runs \<^verbatim>\<open>runOneCmdline\<close> on the state in which the slot of the
  failed attempt is disconnected and \<open>nbCmdDone\<close>, \<open>nbError\<close> and \<open>taskIdx\<close> are one less.
  The outcome: that task alone is dispatched once more, with the new item as its only
  listener; \<open>nbCmdDone\<close> and \<open>nbError\<close> are one less than before and \<open>taskIdx\<close> is back at the
  task; a success of the new attempt is counted once. For a group of one task that fails
  unmasked, is retried and succeeds, the run ends with one completion counted, no error,
  and the callback called once with \<open>True\<close>.
\<close>

theorem retry_reruns_failed_task_once:
  "(fresh_group g \<and> run_from g ask evs = Some s \<and> buttonBar s \<noteq> None \<longrightarrow>
      (\<exists>i s'. taskIdx s = int i \<and> i < length (tasks (taskGroup s))
         \<and> task_state (tasks (taskGroup s) ! i) = Errored
         \<and> sig_task_done (tasks (taskGroup s) ! i) = [length (children s) - 2]
         \<and> enabled (UserChoice RETRY) s
         \<and> handle (UserChoice RETRY) s =
             runOneCmdline False
               (s\<lparr>buttonBar := None,
                  taskGroup := (taskGroup s)\<lparr>tasks := (tasks (taskGroup s))
                     [i := (tasks (taskGroup s) ! i)\<lparr>sig_task_done := []\<rparr>]\<rparr>,
                  nbCmdDone := nbCmdDone s - 1, nbError := nbError s - 1,
                  taskIdx := taskIdx s - 1\<rparr>)
         \<and> handle (UserChoice RETRY) s = Inr s'
         \<and> nbCmdDone s' = nbCmdDone s - 1 \<and> nbError s' = nbError s - 1
         \<and> taskIdx s' = int i
         \<and> effects s' = effects s @ [OfTask i DoRun]
         \<and> tasks (taskGroup s') = (tasks (taskGroup s))
              [i := (tasks (taskGroup s) ! i)
                 \<lparr>task_state := Started, sig_task_done := [length (children s)]\<rparr>]
         \<and> (\<forall>out. \<exists>s''. handle (TaskDone i True out) s' = Inr s''
                \<and> nbCmdDone s'' = nbCmdDone s \<and> nbError s'' = nbError s - 1)))
   \<and> (fresh_task t \<and> \<not> ignore_failure t \<longrightarrow>
        map_option (\<lambda>s. (nbCmdDone s, nbError s, callbacks (effects s)))
          (run_from \<lparr>tasks = [t], aborted = False, repo_fullpath = path\<rparr> True
             [Run, TaskDone 0 False out1, UserChoice RETRY, TaskDone 0 True out2])
        = Some (1, 0, [True]))"
proof (intro conjI impI)
  assume a: "fresh_group g \<and> run_from g ask evs = Some s \<and> buttonBar s \<noteq> None"
  let ?ts = "tasks (taskGroup s)"
  from a run_from_in_phase[of g ask evs s] have ph: "in_phase s" and alive: "\<not> cxx_deleted s"
    by simp_all
  from pending_question_asking[OF ph] a obtain i where ask: "phase_asking i s" by blast
  note f = asking_facts[OF ask]
  let ?s' = "s\<lparr>buttonBar := None,
            taskGroup := (taskGroup s)\<lparr>tasks := ?ts
              [i := (?ts ! i)\<lparr>task_state := Started, sig_task_done := [length (children s)]\<rparr>]\<rparr>,
            nbCmdDone := nbCmdDone s - 1, nbError := nbError s - 1,
            children := children s @ [OneCmd \<lparr>task = i, item_abortRequested = False\<rparr>],
            effects := effects s @ [OfTask i DoRun]\<rparr>"
  have ex: "handle (UserChoice RETRY) s = Inr ?s'"
    using asking_retry_exact[OF ask] by (simp add: handle_def)
  have en: "enabled (UserChoice RETRY) s" using f(9) by (simp add: enabled_def)
  have rb: "handle (UserChoice RETRY) s =
             runOneCmdline False
               (s\<lparr>buttonBar := None,
                  taskGroup := (taskGroup s)\<lparr>tasks := ?ts[i := (?ts ! i)\<lparr>sig_task_done := []\<rparr>]\<rparr>,
                  nbCmdDone := nbCmdDone s - 1, nbError := nbError s - 1,
                  taskIdx := taskIdx s - 1\<rparr>)"
  proof -
    let ?s1 = "s\<lparr>buttonBar := None\<rparr>"
    have "handle (UserChoice RETRY) s = runOneCmdline True ?s1"
      using f by (auto simp add: handle_def handleQuestionResult_def Let_def child_at_last2)
    also have "\<dots> = runOneCmdline False
       (?s1\<lparr>taskGroup := (taskGroup ?s1)\<lparr>tasks := (tasks (taskGroup ?s1))
              [i := (tasks (taskGroup ?s1) ! i)
                 \<lparr>sig_task_done := removeAll (length (children ?s1) - 2)
                     (sig_task_done (tasks (taskGroup ?s1) ! i))\<rparr>]\<rparr>,
          nbCmdDone := nbCmdDone ?s1 - 1, nbError := nbError ?s1 - 1,
          taskIdx := taskIdx ?s1 - 1\<rparr>)"
      by (rule runOneCmdline_retry) (use f in simp_all)
    finally show ?thesis using f by simp
  qed
  from asking_retry[OF ask alive] ex have run': "phase_running i ?s'" by (simp add: handle_def)
  have after: "\<forall>out. \<exists>s''. handle (TaskDone i True out) ?s' = Inr s''
                \<and> nbCmdDone s'' = nbCmdDone s \<and> nbError s'' = nbError s - 1"
  proof
    fix out
    from running_success_counted_once[OF run', of out] alive f(7)
    show "\<exists>s''. handle (TaskDone i True out) ?s' = Inr s''
                \<and> nbCmdDone s'' = nbCmdDone s \<and> nbError s'' = nbError s - 1"
      using f(4) by simp
  qed
  show "\<exists>i s'. taskIdx s = int i \<and> i < length (tasks (taskGroup s))
         \<and> task_state (tasks (taskGroup s) ! i) = Errored
         \<and> sig_task_done (tasks (taskGroup s) ! i) = [length (children s) - 2]
         \<and> enabled (UserChoice RETRY) s
         \<and> handle (UserChoice RETRY) s =
             runOneCmdline False
               (s\<lparr>buttonBar := None,
                  taskGroup := (taskGroup s)\<lparr>tasks := (tasks (taskGroup s))
                     [i := (tasks (taskGroup s) ! i)\<lparr>sig_task_done := []\<rparr>]\<rparr>,
                  nbCmdDone := nbCmdDone s - 1, nbError := nbError s - 1,
                  taskIdx := taskIdx s - 1\<rparr>)
         \<and> handle (UserChoice RETRY) s = Inr s'
         \<and> nbCmdDone s' = nbCmdDone s - 1 \<and> nbError s' = nbError s - 1
         \<and> taskIdx s' = int i
         \<and> effects s' = effects s @ [OfTask i DoRun]
         \<and> tasks (taskGroup s') = (tasks (taskGroup s))
              [i := (tasks (taskGroup s) ! i)
                 \<lparr>task_state := Started, sig_task_done := [length (children s)]\<rparr>]
         \<and> (\<forall>out. \<exists>s''. handle (TaskDone i True out) s' = Inr s''
                \<and> nbCmdDone s'' = nbCmdDone s \<and> nbError s'' = nbError s - 1)"
    apply (rule exI[of _ i])
    apply (rule exI[of _ ?s'])
    using f(2,3,11,16) en rb ex after by simp
next
  assume "fresh_task t \<and> \<not> ignore_failure t"
  then show "map_option (\<lambda>s. (nbCmdDone s, nbError s, callbacks (effects s)))
          (run_from \<lparr>tasks = [t], aborted = False, repo_fullpath = path\<rparr> True
             [Run, TaskDone 0 False out1, UserChoice RETRY, TaskDone 0 True out2])
        = Some (1, 0, [True])"
    by (simp add: eval_defs)
qed

theorem retry_reruns_failed_task_once_witness:
  "fresh_group \<lparr>tasks = [MgExecTask_init False], aborted = False, repo_fullpath = ''/repo''\<rparr>
   \<and> map_option buttonBar
        (run_from \<lparr>tasks = [MgExecTask_init False], aborted = False, repo_fullpath = ''/repo''\<rparr>
           True [Run, TaskDone 0 False ''error''])
      = Some (Some [ABORT, RETRY, OK])
   \<and> (\<exists>s s'. run_from \<lparr>tasks = [MgExecTask_init False], aborted = False, repo_fullpath = ''/repo''\<rparr>
                  True [Run, TaskDone 0 False ''error''] = Some s
         \<and> handle (UserChoice RETRY) s = Inr s'
         \<and> nbCmdDone s' = nbCmdDone s - 1 \<and> nbError s' = nbError s - 1
         \<and> taskIdx s' = taskIdx s)
   \<and> fresh_task (MgExecTask_init False) \<and> \<not> ignore_failure (MgExecTask_init False)
   \<and> map_option (\<lambda>s. (nbCmdDone s, nbError s, callbacks (effects s)))
        (run_from \<lparr>tasks = [MgExecTask_init False], aborted = False, repo_fullpath = ''/repo''\<rparr>
           True [Run, TaskDone 0 False ''error'', UserChoice RETRY, TaskDone 0 True ''ok''])
      = Some (1, 0, [True])"
proof -
  let ?g = "\<lparr>tasks = [MgExecTask_init False], aborted = False, repo_fullpath = ''/repo''\<rparr>"
  have fg: "fresh_group ?g" by code_simp
  have bb: "map_option buttonBar (run_from ?g True [Run, TaskDone 0 False ''error''])
      = Some (Some [ABORT, RETRY, OK])" by code_simp
  then obtain s where s: "run_from ?g True [Run, TaskDone 0 False ''error''] = Some s"
    "buttonBar s \<noteq> None" by auto
  have ft: "fresh_task (MgExecTask_init False)" "\<not> ignore_failure (MgExecTask_init False)"
    by (simp_all add: fresh_task_def MgExecTask_init_def)
  note t = retry_reruns_failed_task_once
             [where g = ?g and ask = True and evs = "[Run, TaskDone 0 False ''error'']"
                and s = s and t = "MgExecTask_init False" and path = "''/repo''"
                and ?out1.0 = "''error''" and ?out2.0 = "''ok''"]
  from t fg s obtain i s' where "taskIdx s = int i" "handle (UserChoice RETRY) s = Inr s'"
    "nbCmdDone s' = nbCmdDone s - 1" "nbError s' = nbError s - 1" "taskIdx s' = int i"
    by blast
  with s(1) have "\<exists>s s'. run_from ?g True [Run, TaskDone 0 False ''error''] = Some s
         \<and> handle (UserChoice RETRY) s = Inr s'
         \<and> nbCmdDone s' = nbCmdDone s - 1 \<and> nbError s' = nbError s - 1
         \<and> taskIdx s' = taskIdx s" by auto
  moreover from t ft have "map_option (\<lambda>s. (nbCmdDone s, nbError s, callbacks (effects s)))
        (run_from ?g True [Run, TaskDone 0 False ''error'', UserChoice RETRY, TaskDone 0 True ''ok''])
      = Some (1, 0, [True])" by blast
  ultimately show ?thesis using fg bb ft by blast
qed

text \<open>
  \<^bold>\<open>C7.\<close> The claim that the precondition is \<open>NotFulfilled\<close> whenever the referenced group has not
  started fails for a group that is finished without a started task (aborted before its
  start, or empty): the test for a finished group comes first and gives \<open>FulFilled\<close>.
\<close>

theorem aborted_unstarted_group_fulfils_counterexample:
  "\<not> is_started \<lparr>tasks = [MgExecTask_init False], aborted = True, repo_fullpath = ''/repo''\<rparr>
   \<and> after_other_taskgroup_is_started_and_dir_exists (path_in [])
       (Some \<lparr>tasks = [MgExecTask_init False], aborted = True, repo_fullpath = ''/repo''\<rparr>)
      = FulFilled"
  by (simp add: after_other_taskgroup_is_started_and_dir_exists_def is_started_def
      is_finished_def is_aborted_def is_task_started_def MgExecTask_init_def)

text \<open>
  \<^bold>\<open>C7, as amended.\<close> The precondition is \<open>PreConditionErrored\<close> for an absent group; \<open>FulFilled\<close> for
  a finished group, whatever the file system says and whether or not a task was started;
  \<open>FulFilled\<close> for a started group whose repository path exists; \<open>NotFulfilled\<close> for a
  group that is not finished and has not started, or is not finished, has started and
  whose path does not exist.
\<close>

theorem started_and_dir_exists_cases:
  "after_other_taskgroup_is_started_and_dir_exists path_exists None = PreConditionErrored
   \<and> (is_finished g \<longrightarrow>
        after_other_taskgroup_is_started_and_dir_exists path_exists (Some g) = FulFilled)
   \<and> (is_started g \<and> path_exists (repo_fullpath g) \<longrightarrow>
        after_other_taskgroup_is_started_and_dir_exists path_exists (Some g) = FulFilled)
   \<and> (\<not> is_finished g \<and> \<not> is_started g \<longrightarrow>
        after_other_taskgroup_is_started_and_dir_exists path_exists (Some g) = NotFulfilled)
   \<and> (\<not> is_finished g \<and> is_started g \<and> \<not> path_exists (repo_fullpath g) \<longrightarrow>
        after_other_taskgroup_is_started_and_dir_exists path_exists (Some g) = NotFulfilled)"
  by (simp add: after_other_taskgroup_is_started_and_dir_exists_def)

theorem started_and_dir_exists_cases_witness:
  "is_finished \<lparr>tasks = [\<lparr>task_state = Successful, ignore_failure = False, sig_task_done = []\<rparr>],
                 aborted = False, repo_fullpath = ''/repo''\<rparr>
   \<and> after_other_taskgroup_is_started_and_dir_exists (path_in [])
        (Some \<lparr>tasks = [\<lparr>task_state = Successful, ignore_failure = False, sig_task_done = []\<rparr>],
                 aborted = False, repo_fullpath = ''/repo''\<rparr>) = FulFilled
   \<and> is_started \<lparr>tasks = [\<lparr>task_state = Started, ignore_failure = False, sig_task_done = []\<rparr>],
                 aborted = False, repo_fullpath = ''/repo''\<rparr>
   \<and> \<not> is_finished \<lparr>tasks = [\<lparr>task_state = Started, ignore_failure = False, sig_task_done = []\<rparr>],
                 aborted = False, repo_fullpath = ''/repo''\<rparr>
   \<and> after_other_taskgroup_is_started_and_dir_exists (path_in [''/repo''])
        (Some \<lparr>tasks = [\<lparr>task_state = Started, ignore_failure = False, sig_task_done = []\<rparr>],
                 aborted = False, repo_fullpath = ''/repo''\<rparr>) = FulFilled
   \<and> after_other_taskgroup_is_started_and_dir_exists (path_in [])
        (Some \<lparr>tasks = [\<lparr>task_state = Started, ignore_failure = False, sig_task_done = []\<rparr>],
                 aborted = False, repo_fullpath = ''/repo''\<rparr>) = NotFulfilled
   \<and> \<not> is_started \<lparr>tasks = [MgExecTask_init False], aborted = False, repo_fullpath = ''/repo''\<rparr>
   \<and> \<not> is_finished \<lparr>tasks = [MgExecTask_init False], aborted = False, repo_fullpath = ''/repo''\<rparr>
   \<and> after_other_taskgroup_is_started_and_dir_exists (path_in [''/repo''])
        (Some \<lparr>tasks = [MgExecTask_init False], aborted = False, repo_fullpath = ''/repo''\<rparr>)
      = NotFulfilled"
  using
    started_and_dir_exists_cases
      [where g = "\<lparr>tasks = [\<lparr>task_state = Successful, ignore_failure = False, sig_task_done = []\<rparr>],
                 aborted = False, repo_fullpath = ''/repo''\<rparr>" and path_exists = "path_in []"]
    started_and_dir_exists_cases
      [where g = "\<lparr>tasks = [\<lparr>task_state = Started, ignore_failure = False, sig_task_done = []\<rparr>],
                 aborted = False, repo_fullpath = ''/repo''\<rparr>" and path_exists = "path_in [''/repo'']"]
    started_and_dir_exists_cases
      [where g = "\<lparr>tasks = [\<lparr>task_state = Started, ignore_failure = False, sig_task_done = []\<rparr>],
                 aborted = False, repo_fullpath = ''/repo''\<rparr>" and path_exists = "path_in []"]
    started_and_dir_exists_cases
      [where g = "\<lparr>tasks = [MgExecTask_init False], aborted = False, repo_fullpath = ''/repo''\<rparr>"
         and path_exists = "path_in [''/repo'']"]
  by (simp add: is_finished_def is_started_def is_aborted_def is_task_done_def
      is_task_started_def MgExecTask_init_def path_in_def)

text \<open>
  \<^bold>\<open>C8.\<close> In a reachable state of a runner built with \<open>askQuestionUponFailure = False\<close>, when the
  running task, whose failure is not masked, reports a failure: no error was counted
  before, one is counted now, \<open>nbCmdDone\<close> is the number of tasks, the callback is called
  with \<open>False\<close>, no question is pending, and whatever happens afterwards no question
  appears, nothing more is dispatched or reported, and every task behind the failed one
  stays \<open>NotStarted\<close>.
\<close>

theorem unattended_failure_finalizes:
  assumes "fresh_group g" and "run_from g False evs = Some s"
    and "i < length (tasks (taskGroup s))"
    and "task_state (tasks (taskGroup s) ! i) = Started"
    and "\<not> ignore_failure (tasks (taskGroup s) ! i)"
  shows "\<exists>s'. enabled (TaskDone i False out) s
           \<and> handle (TaskDone i False out) s = Inr s'
           \<and> nbError s = 0 \<and> nbError s' = 1
           \<and> nbCmdDone s' = int (length (tasks (taskGroup s)))
           \<and> effects s' = effects s @
                [OfTask i (SigTaskDone False out), CbExecDone False, RepoRefresh]
           \<and> buttonBar s' = None
           \<and> (\<forall>evs' s''. exec evs' s' = Some s'' \<longrightarrow>
                 buttonBar s'' = None \<and> effects s'' = effects s'
                 \<and> tasks (taskGroup s'') = tasks (taskGroup s')
                 \<and> (\<forall>j. i < j \<and> j < length (tasks (taskGroup s)) \<longrightarrow>
                        task_state (tasks (taskGroup s'') ! j) = NotStarted))"
proof -
  let ?ts = "tasks (taskGroup s)"
  from run_from_in_phase[OF assms(1,2)] have ph: "in_phase s" and alive: "\<not> cxx_deleted s"
    and noask: "\<not> askQuestionUponFailure s" by simp_all
  have "\<exists>k. phase_running k s"
    using ph assms(3,4) idle_no_started[of s i] asking_no_started[of _ s i]
      finalized_no_started[of _ s i]
    unfolding in_phase_def by blast
  then obtain k where "phase_running k s" by blast
  with running_started_unique[OF this assms(3,4)] have run: "phase_running i s" by simp
  let ?s' = "s\<lparr>taskGroup := (taskGroup s)\<lparr>tasks := ?ts[i := (?ts ! i)\<lparr>task_state := Errored\<rparr>]\<rparr>,
            nbCmdDone := int (length ?ts), nbError := 1,
            effects := effects s @
              [OfTask i (SigTaskDone False out), CbExecDone False, RepoRefresh]\<rparr>"
  have h: "handle (TaskDone i False out) s = Inr ?s'"
    by (rule running_failure_noask_exact[OF run alive noask assms(5)])
  have en: "enabled (TaskDone i False out) s" using assms(3,4) by (simp add: enabled_def)
  from run noask have e0: "nbError s = 0" and bb: "buttonBar s = None"
    and fr: "\<forall>j. Suc i \<le> j \<and> j < length ?ts \<longrightarrow> fresh_task (?ts ! j)"
    by (simp_all add: phase_running_def Let_def list_all_drop_iff)
  have ti: "taskIdx s = int i" using run by (simp add: phase_running_def Let_def)
  have "\<not> phase_running i ?s'" using assms(3) by (simp add: phase_running_def Let_def)
  moreover have "\<not> phase_running (Suc i) ?s'" using ti by (simp add: phase_running_def Let_def)
  moreover have "\<not> phase_asking i ?s'" using noask by (simp add: phase_asking_def Let_def)
  ultimately have "phase_finalized (Suc i) ?s'"
    using running_step[OF run alive en h] by blast
  then have later: "\<forall>evs' s''. exec evs' ?s' = Some s'' \<longrightarrow>
                 buttonBar s'' = None \<and> effects s'' = effects ?s'
                 \<and> tasks (taskGroup s'') = tasks (taskGroup ?s')"
    using finalized_exec by blast
  have ever: "\<forall>evs' s''. exec evs' ?s' = Some s'' \<longrightarrow>
                 buttonBar s'' = None \<and> effects s'' = effects ?s'
                 \<and> tasks (taskGroup s'') = tasks (taskGroup ?s')
                 \<and> (\<forall>j. i < j \<and> j < length ?ts \<longrightarrow>
                        task_state (tasks (taskGroup s'') ! j) = NotStarted)"
  proof (intro allI impI)
    fix evs' s'' assume "exec evs' ?s' = Some s''"
    with later have l: "buttonBar s'' = None" "effects s'' = effects ?s'"
      "tasks (taskGroup s'') = tasks (taskGroup ?s')" by blast+
    have "\<forall>j. i < j \<and> j < length ?ts \<longrightarrow> task_state (tasks (taskGroup s'') ! j) = NotStarted"
      using fr by (auto simp add: l(3) fresh_task_def)
    with l show "buttonBar s'' = None \<and> effects s'' = effects ?s'
                 \<and> tasks (taskGroup s'') = tasks (taskGroup ?s')
                 \<and> (\<forall>j. i < j \<and> j < length ?ts \<longrightarrow>
                        task_state (tasks (taskGroup s'') ! j) = NotStarted)" by blast
  qed
  show ?thesis
  proof (intro exI[of _ ?s'] conjI)
    show "enabled (TaskDone i False out) s" by (rule en)
    show "handle (TaskDone i False out) s = Inr ?s'" by (rule h)
    show "nbError s = 0" by (rule e0)
    show "nbError ?s' = 1" by simp
    show "nbCmdDone ?s' = int (length ?ts)" by simp
    show "effects ?s' = effects s @
                [OfTask i (SigTaskDone False out), CbExecDone False, RepoRefresh]" by simp
    show "buttonBar ?s' = None" using bb by simp
    show "\<forall>evs' s''. exec evs' ?s' = Some s'' \<longrightarrow>
                 buttonBar s'' = None \<and> effects s'' = effects ?s'
                 \<and> tasks (taskGroup s'') = tasks (taskGroup ?s')
                 \<and> (\<forall>j. i < j \<and> j < length ?ts \<longrightarrow>
                        task_state (tasks (taskGroup s'') ! j) = NotStarted)" by (rule ever)
  qed
qed

theorem unattended_failure_finalizes_witness:
  "fresh_group \<lparr>tasks = [MgExecTask_init False, MgExecTask_init False], aborted = False,
                 repo_fullpath = ''/repo''\<rparr>
   \<and> map_option (\<lambda>s. (length (tasks (taskGroup s)), task_state (tasks (taskGroup s) ! 0),
                         ignore_failure (tasks (taskGroup s) ! 0)))
        (run_from \<lparr>tasks = [MgExecTask_init False, MgExecTask_init False], aborted = False,
                    repo_fullpath = ''/repo''\<rparr> False [Run])
      = Some (2, Started, False)
   \<and> (\<exists>s s'. run_from \<lparr>tasks = [MgExecTask_init False, MgExecTask_init False],
                       aborted = False, repo_fullpath = ''/repo''\<rparr> False [Run] = Some s
         \<and> handle (TaskDone 0 False ''error'') s = Inr s' \<and> nbError s' = 1
         \<and> nbCmdDone s' = 2 \<and> buttonBar s' = None
         \<and> effects s' = effects s @
               [OfTask 0 (SigTaskDone False ''error''), CbExecDone False, RepoRefresh])"
proof -
  let ?g = "\<lparr>tasks = [MgExecTask_init False, MgExecTask_init False], aborted = False,
                 repo_fullpath = ''/repo''\<rparr>"
  have fg: "fresh_group ?g" by code_simp
  have st: "map_option (\<lambda>s. (length (tasks (taskGroup s)), task_state (tasks (taskGroup s) ! 0),
                         ignore_failure (tasks (taskGroup s) ! 0)))
        (run_from ?g False [Run]) = Some (2, Started, False)" by code_simp
  then obtain s where s: "run_from ?g False [Run] = Some s"
    and len: "length (tasks (taskGroup s)) = 2"
    and h1: "task_state (tasks (taskGroup s) ! 0) = Started"
    and h2: "\<not> ignore_failure (tasks (taskGroup s) ! 0)" by auto
  from len have h0: "0 < length (tasks (taskGroup s))" by simp
  from unattended_failure_finalizes[OF fg s h0 h1 h2, of "''error''"] len obtain s' where
    "handle (TaskDone 0 False ''error'') s = Inr s'" "nbError s' = 1"
      "nbCmdDone s' = 2" "buttonBar s' = None"
      "effects s' = effects s @
               [OfTask 0 (SigTaskDone False ''error''), CbExecDone False, RepoRefresh]"
    by auto
  with s fg st show ?thesis by blast
qed

text \<open>
  \<^bold>\<open>C9.\<close> The code at the failing input: a group of one task that ran and succeeded is
  finished and successful, not errored, and its completion was reported with \<open>True\<close>.
  \<^verbatim>\<open>abortItem()\<close> then issues no further callback, but it sets the group's \<open>aborted\<close> flag,
  and the group is no longer successful and is errored.
\<close>

theorem abortItem_after_completion_flips_group_outcome:
  "map_option (\<lambda>s. (list_all is_task_done (tasks (taskGroup s)), is_finished (taskGroup s),
                     is_successful (taskGroup s), is_errored (taskGroup s),
                     callbacks (effects s)))
     (run_from \<lparr>tasks = [MgExecTask_init False], aborted = False, repo_fullpath = ''/repo''\<rparr>
        True [Run, TaskDone 0 True ''ok''])
   = Some (True, True, True, False, [True])
   \<and> map_option (\<lambda>s. (list_all is_task_done (tasks (taskGroup s)), is_finished (taskGroup s),
                     is_successful (taskGroup s), is_errored (taskGroup s),
                     callbacks (effects s)))
     (run_from \<lparr>tasks = [MgExecTask_init False], aborted = False, repo_fullpath = ''/repo''\<rparr>
        True [Run, TaskDone 0 True ''ok'', AbortItem])
   = Some (True, True, False, True, [True])"
  by code_simp

text \<open>
  \<^bold>\<open>C10.\<close> A group without tasks that is not aborted is finished and successful, not errored
  and not started.
\<close>

theorem empty_group_queries:
  "tasks g = [] \<and> \<not> aborted g \<longrightarrow>
     is_finished g \<and> is_successful g \<and> \<not> is_errored g \<and> \<not> is_started g"
  by (simp add: is_finished_def is_successful_def is_errored_def is_started_def is_aborted_def)

theorem empty_group_queries_witness:
  "tasks (MgExecTaskGroup_init ''/repo'' None) = []
   \<and> \<not> aborted (MgExecTaskGroup_init ''/repo'' None)
   \<and> is_finished (MgExecTaskGroup_init ''/repo'' None)
   \<and> is_successful (MgExecTaskGroup_init ''/repo'' None)
   \<and> \<not> is_errored (MgExecTaskGroup_init ''/repo'' None)
   \<and> \<not> is_started (MgExecTaskGroup_init ''/repo'' None)"
  using empty_group_queries[of "MgExecTaskGroup_init ''/repo'' None"]
  by (simp add: MgExecTaskGroup_init_def)

end
